theory Spec2Isabelle
  imports Complex_Main "HOL-Library.Word" "HOL-Library.Multiset"
begin

unbundle bit_operations_syntax

section \<open>CC_ReliabilityMatrix: data model\<close>

text \<open>
  The class of \<^verbatim>\<open>CC_ReliabilityMatrix.cpp\<close> owns a flat buffer \<^verbatim>\<open>_matrix\<close> of
  \<^verbatim>\<open>_nb_symbols * _message_length\<close> metrics. The cell of row \<open>ir\<close> (symbol value) and
  column \<open>ic\<close> (message position) is \<^verbatim>\<open>_matrix[ic*_nb_symbols + ir]\<close>, so one column is
  one contiguous block of \<^verbatim>\<open>_nb_symbols\<close> entries.

  The entries are C++ \<^verbatim>\<open>float\<close>s. The model is polymorphic in the entry type and asks
  of it only the operations a function uses (\<open>0\<close>, \<open>+\<close>, \<open>/\<close>, \<open>\<le>\<close>); results that need
  laws of arithmetic are stated for exact arithmetic (a field). The \<^verbatim>\<open>unsigned int\<close>
  dimensions and indices are natural numbers. Where the source computes a buffer size, a
  loop bound or a shift, the 32-bit wrap-around is written out (\<open>wrap32\<close>); an index of a
  cell is below the buffer size and so does not wrap (see \<open>wf_matrix\<close>). Out of the
  invariant \<open>wf_matrix\<close> the source reads or writes outside its buffer; the theorems
  assume the invariant.
\<close>

record 'a CC_ReliabilityMatrix =
  nb_symbols_log2 :: nat
  nb_symbols :: nat
  message_length :: nat
  message_symbol_count :: nat
  matrix :: "'a list"

definition wrap32 :: "nat \<Rightarrow> nat" where
  "wrap32 x = x mod 2 ^ 32"

text \<open>Cell access, \<^verbatim>\<open>_matrix[ic*_nb_symbols + ir]\<close>.\<close>

definition cell :: "'a CC_ReliabilityMatrix \<Rightarrow> nat \<Rightarrow> nat \<Rightarrow> 'a" where
  "cell M ir ic = matrix M ! (ic * nb_symbols M + ir)"

text \<open>The contents of one column, rows in increasing order.\<close>

definition column :: "'a CC_ReliabilityMatrix \<Rightarrow> nat \<Rightarrow> 'a list" where
  "column M ic = map (\<lambda>ir. cell M ir ic) [0..<nb_symbols M]"

text \<open>
  The buffer has exactly the size the constructors allocate, \<^verbatim>\<open>_nb_symbols*_message_length\<close>,
  and that \<^verbatim>\<open>unsigned int\<close> product did not wrap around. Every member function keeps the
  dimensions and the buffer length, and under this invariant every index
  \<^verbatim>\<open>ic*_nb_symbols + ir\<close> of a cell is computed without wrap-around.
\<close>

definition wf_matrix :: "'a CC_ReliabilityMatrix \<Rightarrow> bool" where
  "wf_matrix M \<longleftrightarrow>
     length (matrix M) = nb_symbols M * message_length M \<and>
     nb_symbols M * message_length M < 2 ^ 32"

text \<open>The dimensions and the buffer length of \<open>M'\<close> are those of \<open>M\<close>.\<close>

definition same_dims :: "'a CC_ReliabilityMatrix \<Rightarrow> 'a CC_ReliabilityMatrix \<Rightarrow> bool" where
  "same_dims M' M \<longleftrightarrow>
     nb_symbols_log2 M' = nb_symbols_log2 M \<and> nb_symbols M' = nb_symbols M \<and>
     message_length M' = message_length M \<and> length (matrix M') = length (matrix M)"

text \<open>
  \<^verbatim>\<open>memcpy(&dst[off], src, n*sizeof(float))\<close>: \<open>n\<close> entries of \<open>src\<close> replace the entries
  \<open>off, ..., off+n-1\<close> of \<open>dst\<close>.
\<close>

definition memcpy_floats :: "'a list \<Rightarrow> nat \<Rightarrow> 'a list \<Rightarrow> nat \<Rightarrow> 'a list" where
  "memcpy_floats dst off src n = take off dst @ take n src @ drop (off + n) dst"

text \<open>
  The constructor: \<^verbatim>\<open>_nb_symbols(1<<nb_symbols_log2)\<close>, cursor 0, and a buffer of
  \<^verbatim>\<open>_nb_symbols*_message_length\<close> entries, zeroed.
\<close>

definition new_matrix :: "nat \<Rightarrow> nat \<Rightarrow> ('a::zero) CC_ReliabilityMatrix" where
  "new_matrix nb_symbols_log2' message_length' =
     (let nb_symbols' = wrap32 (push_bit nb_symbols_log2' 1) in
      \<lparr> nb_symbols_log2 = nb_symbols_log2',
        nb_symbols = nb_symbols',
        message_length = message_length',
        message_symbol_count = 0,
        matrix = replicate (wrap32 (nb_symbols' * message_length')) 0 \<rparr>)"

text \<open>
  The copy constructor: the dimensions of the source, \<^verbatim>\<open>_message_symbol_count(0)\<close>, and a
  fresh buffer of \<^verbatim>\<open>_nb_symbols*_message_length\<close> entries that \<^verbatim>\<open>memcpy\<close> fills completely
  from the source's buffer (so the model needs no initial contents for it).
\<close>

definition copy_matrix :: "'a CC_ReliabilityMatrix \<Rightarrow> 'a CC_ReliabilityMatrix" where
  "copy_matrix relmat =
     \<lparr> nb_symbols_log2 = nb_symbols_log2 relmat,
       nb_symbols = nb_symbols relmat,
       message_length = message_length relmat,
       message_symbol_count = 0,
       matrix = memcpy_floats [] 0 (matrix relmat)
                  (wrap32 (nb_symbols relmat * message_length relmat)) \<rparr>"

subsection \<open>Ingestion\<close>

definition enter_symbol_data :: "'a list \<Rightarrow> 'a CC_ReliabilityMatrix \<Rightarrow> 'a CC_ReliabilityMatrix" where
  "enter_symbol_data symbol_data M =
     (if message_symbol_count M < message_length M then
        M\<lparr> matrix := memcpy_floats (matrix M) (message_symbol_count M * nb_symbols M)
                        symbol_data (nb_symbols M),
           message_symbol_count := message_symbol_count M + 1 \<rparr>
      else M)"

definition enter_symbol_data_at ::
  "nat \<Rightarrow> 'a list \<Rightarrow> 'a CC_ReliabilityMatrix \<Rightarrow> 'a CC_ReliabilityMatrix" where
  "enter_symbol_data_at message_symbol_index symbol_data M =
     (if message_symbol_index < message_length M then
        M\<lparr> matrix := memcpy_floats (matrix M) (message_symbol_index * nb_symbols M)
                        symbol_data (nb_symbols M) \<rparr>
      else M)"

text \<open>The loop \<^verbatim>\<open>for (i=0; i<_nb_symbols; i++) _matrix[col*_nb_symbols + i] = 0.0\<close>.\<close>

definition zero_column :: "nat \<Rightarrow> nat \<Rightarrow> ('a::zero) list \<Rightarrow> 'a list" where
  "zero_column ns col buf = fold (\<lambda>i b. b[col * ns + i := 0]) [0..<ns] buf"

definition enter_erasure :: "('a::zero) CC_ReliabilityMatrix \<Rightarrow> 'a CC_ReliabilityMatrix" where
  "enter_erasure M =
     (if message_symbol_count M < message_length M then
        M\<lparr> matrix := zero_column (nb_symbols M) (message_symbol_count M) (matrix M),
           message_symbol_count := message_symbol_count M + 1 \<rparr>
      else M)"

definition enter_erasure_at ::
  "nat \<Rightarrow> ('a::zero) CC_ReliabilityMatrix \<Rightarrow> 'a CC_ReliabilityMatrix" where
  "enter_erasure_at message_symbol_index M =
     (if message_symbol_index < message_length M then
        M\<lparr> matrix := zero_column (nb_symbols M) message_symbol_index (matrix M) \<rparr>
      else M)"

subsection \<open>normalize\<close>





subsection \<open>find_max and find_max_in_col\<close>

text \<open>
  The state of the scan is \<open>(max, i_row, i_col)\<close>; the result of \<^verbatim>\<open>find_max\<close> is that
  triple (the returned value and the two reference parameters).
\<close>

definition find_max_cell ::
  "'a list \<Rightarrow> nat \<Rightarrow> nat \<Rightarrow> nat \<Rightarrow> ('a::linorder) \<times> nat \<times> nat \<Rightarrow> 'a \<times> nat \<times> nat" where
  "find_max_cell buf ns ic ir st =
     (if buf ! (ic * ns + ir) \<ge> fst st then (buf ! (ic * ns + ir), ir, ic) else st)"

definition find_max :: "('a::{zero,linorder}) CC_ReliabilityMatrix \<Rightarrow> 'a \<times> nat \<times> nat" where
  "find_max M =
     fold (\<lambda>ic. fold (find_max_cell (matrix M) (nb_symbols M) ic) [0..<nb_symbols M])
          [0..<message_length M] (0, 0, 0)"

text \<open>
  The scan order of \<^verbatim>\<open>find_max\<close> on pairs (column, row): columns in increasing order,
  rows in increasing order within a column.
\<close>

definition scan_less :: "nat \<times> nat \<Rightarrow> nat \<times> nat \<Rightarrow> bool" where
  "scan_less p q \<longleftrightarrow> fst p < fst q \<or> (fst p = fst q \<and> snd p < snd q)"

text \<open>The state is \<open>(max, i_row)\<close>, which is also the result.\<close>

definition find_max_in_col_cell ::
  "'a list \<Rightarrow> nat \<Rightarrow> nat \<Rightarrow> 'a \<Rightarrow> nat \<Rightarrow> ('a::linorder) \<times> nat \<Rightarrow> 'a \<times> nat" where
  "find_max_in_col_cell buf ns i_col prev_max ir st =
     (if buf ! (i_col * ns + ir) \<ge> fst st \<and> buf ! (i_col * ns + ir) < prev_max
      then (buf ! (i_col * ns + ir), ir) else st)"

definition find_max_in_col ::
  "('a::{zero,linorder}) CC_ReliabilityMatrix \<Rightarrow> nat \<Rightarrow> 'a \<Rightarrow> 'a \<times> nat" where
  "find_max_in_col M i_col prev_max =
     fold (find_max_in_col_cell (matrix M) (nb_symbols M) i_col prev_max) [0..<nb_symbols M] (0, 0)"

subsection \<open>deinterleave\<close>

text \<open>
  \<^verbatim>\<open>(unsigned int) (log(_message_length)/log(2))\<close> is the integer part of the binary
  logarithm; it is modelled by integer arithmetic.
\<close>

fun floor_log2 :: "nat \<Rightarrow> nat" where
  "floor_log2 x = (if x < 2 then 0 else Suc (floor_log2 (x div 2)))"

declare floor_log2.simps [simp del]

text \<open>
  The bit reversal loop \<^verbatim>\<open>for (; iv; iv >>= 1)\<close> on the \<^verbatim>\<open>unsigned int\<close>s \<open>iv\<close>,
  \<open>new_index\<close> and \<open>s\<close>; it returns \<open>(new_index, s)\<close>.
\<close>

function bit_reversal_loop :: "nat \<Rightarrow> nat \<Rightarrow> nat \<Rightarrow> nat \<times> nat" where
  "bit_reversal_loop iv new_index s =
     (if iv \<noteq> 0
      then bit_reversal_loop (drop_bit 1 iv)
             (wrap32 (push_bit 1 (new_index OR (iv AND 1))))
             (wrap32 (s + (2 ^ 32 - 1)))
      else (new_index, s))"
  by pat_completeness auto
termination
  by (relation "measure (\<lambda>(iv, new_index, s). iv)") (auto simp: drop_bit_eq_div)

declare bit_reversal_loop.simps [simp del]

text \<open>The whole computation of \<open>new_index\<close> from \<open>i\<close>, with the two shifts after the loop.\<close>

definition bit_reversal :: "nat \<Rightarrow> nat \<Rightarrow> nat" where
  "bit_reversal index_size i =
     (let r = bit_reversal_loop i 0 index_size;
          new_index = drop_bit 1 (fst r)
      in wrap32 (push_bit (snd r) new_index))"

text \<open>
  The main loop, on the state \<open>(i, old_index, _matrix)\<close>. The counter \<open>i\<close> stays below
  \<open>index_max\<close> and \<open>old_index\<close> below \<^verbatim>\<open>_message_length\<close>, so their increments do not
  wrap.
\<close>

function deinterleave_loop ::
  "nat \<Rightarrow> nat \<Rightarrow> nat \<Rightarrow> nat \<Rightarrow> 'a list \<Rightarrow> nat \<Rightarrow> nat \<Rightarrow> 'a list \<Rightarrow> 'a list" where
  "deinterleave_loop ns ml index_size index_max tmp_matrix i old_index buf =
     (if i < index_max \<and> old_index < ml then
        (let new_index = bit_reversal index_size i in
         if new_index < ml
         then deinterleave_loop ns ml index_size index_max tmp_matrix (i + 1) (old_index + 1)
                (memcpy_floats buf (old_index * ns) (drop (new_index * ns) tmp_matrix) ns)
         else deinterleave_loop ns ml index_size index_max tmp_matrix (i + 1) old_index buf)
      else buf)"
  by pat_completeness auto
termination
  by (relation "measure (\<lambda>(ns, ml, index_size, index_max, tmp_matrix, i, old_index, buf). index_max - i)")
     auto

declare deinterleave_loop.simps [simp del]

text \<open>
  \<^verbatim>\<open>deinterleave\<close> once \<open>index_size\<close> is computed: the snapshot \<open>tmp_matrix\<close>,
  \<^verbatim>\<open>index_max = 1<<index_size\<close> and the main loop.
\<close>

definition deinterleave_with :: "nat \<Rightarrow> 'a CC_ReliabilityMatrix \<Rightarrow> 'a CC_ReliabilityMatrix" where
  "deinterleave_with index_size M =
     (let tmp_matrix = memcpy_floats [] 0 (matrix M) (wrap32 (nb_symbols M * message_length M));
          index_max = wrap32 (push_bit index_size 1)
      in M\<lparr> matrix := deinterleave_loop (nb_symbols M) (message_length M) index_size index_max
                          tmp_matrix 0 0 (matrix M) \<rparr>)"

text \<open>
  \<^verbatim>\<open>deinterleave\<close>, with
  \<^verbatim>\<open>index_size = (unsigned int) (log(_message_length)/log(2)) + 1\<close>.
\<close>

definition deinterleave :: "'a CC_ReliabilityMatrix \<Rightarrow> 'a CC_ReliabilityMatrix" where
  "deinterleave M = deinterleave_with (floor_log2 (message_length M) + 1) M"

text \<open>
  The permutation as the specification words it: \<open>w = ceil(log2(message_length))\<close>,
  \<open>W = 2^w\<close>, \<open>r(i)\<close> the reversal of \<open>i\<close> within \<open>w\<close> bits, and the sources
  \<open>r(i) < message_length\<close> for \<open>i = 0, ..., W-1\<close> in this order, one per destination.
\<close>

definition ceil_log2 :: "nat \<Rightarrow> nat" where
  "ceil_log2 x = (if x \<le> 1 then 0 else Suc (floor_log2 (x - 1)))"

definition spec_bit_reverse :: "nat \<Rightarrow> nat \<Rightarrow> nat" where
  "spec_bit_reverse w i = horner_sum of_bool 2 (rev (map (bit i) [0..<w]))"

definition spec_source_columns :: "nat \<Rightarrow> nat list" where
  "spec_source_columns ml =
     filter (\<lambda>r. r < ml) (map (spec_bit_reverse (ceil_log2 ml)) [0..<2 ^ ceil_log2 ml])"

text \<open>
  The same list of sources with any index width \<open>w\<close> in place of \<open>ceil(log2(message_length))\<close>;
  the code's width is \<open>floor(log2(message_length)) + 1\<close>.
\<close>

definition reversed_sources :: "nat \<Rightarrow> nat \<Rightarrow> nat list" where
  "reversed_sources w ml = filter (\<lambda>r. r < ml) (map (spec_bit_reverse w) [0..<2 ^ w])"

text \<open>
  Copying the columns \<open>srcs\<close> of the snapshot, in order, into the destination columns
  \<open>old_index, old_index + 1, ...\<close>: what the main loop of \<^verbatim>\<open>deinterleave\<close> does with the
  sources it keeps.
\<close>

fun place :: "nat \<Rightarrow> 'a list \<Rightarrow> nat list \<Rightarrow> nat \<Rightarrow> 'a list \<Rightarrow> 'a list" where
  "place ns tmp [] old_index buf = buf"
| "place ns tmp (r # rs) old_index buf =
     place ns tmp rs (old_index + 1)
       (memcpy_floats buf (old_index * ns) (drop (r * ns) tmp) ns)"

section \<open>CC_Encoding_FA: the convolutional encoder\<close>

text \<open>
  The class template \<^verbatim>\<open>CC_Encoding_FA<T_Register, T_IOSymbol, N_k>\<close>. The unsigned
  register type \<^verbatim>\<open>T_Register\<close> is \<open>'r word\<close> and the unsigned symbol type
  \<^verbatim>\<open>T_IOSymbol\<close> is \<open>'s word\<close>, so \<^verbatim>\<open>sizeof(T)*8\<close> is \<open>LENGTH('r)\<close> or \<open>LENGTH('s)\<close>.
  The members \<^verbatim>\<open>k\<close>, \<^verbatim>\<open>n\<close>, \<^verbatim>\<open>m\<close> are the fields \<open>enc_k\<close>, \<open>enc_n\<close>, \<open>enc_m\<close>; the array
  \<^verbatim>\<open>std::array<T_Register, N_k> registers\<close> is a list, of length \<open>N_k\<close> in every object
  the constructor returns.
\<close>

record (overloaded) 'r CC_Encoding_FA =
  enc_k :: nat
  enc_n :: nat
  enc_m :: nat
  constraints :: "nat list"
  genpoly_representations :: "'r word list list"
  registers :: "'r word list"

text \<open>
  The constructor throws \<^verbatim>\<open>CCSoft_Exception\<close> with a message. With \<open>N_k = 0\<close> and no
  tap vector it reads \<^verbatim>\<open>genpoly_representations[0]\<close> of an empty vector, which is not an
  exception but a read out of range.
\<close>

datatype error = CCSoft_Exception string | Out_Of_Range_Read

text \<open>
  One iteration of the constructor's loop over \<^verbatim>\<open>ci\<close>; the state is
  \<open>(min_nb_outputs, m)\<close>, or the exception thrown so far.
\<close>

definition ctor_step ::
  "nat \<Rightarrow> nat list \<Rightarrow> 'r word list list \<Rightarrow> nat \<Rightarrow> error + nat \<times> nat \<Rightarrow> error + nat \<times> nat" where
  "ctor_step reg_bits cs gp ci st =
     (case st of
        Inl e \<Rightarrow> Inl e
      | Inr (min_nb_outputs, m) \<Rightarrow>
          if cs ! ci > reg_bits
          then Inl (CCSoft_Exception ''One constraint size is too large for the size of the registers'')
          else Inr (if length (gp ! ci) < min_nb_outputs then length (gp ! ci) else min_nb_outputs,
                    if cs ! ci > m then cs ! ci else m))"

definition clear :: "'r::len CC_Encoding_FA \<Rightarrow> 'r CC_Encoding_FA" where
  "clear e = e\<lparr> registers := map (\<lambda>_. 0) (registers e) \<rparr>"

definition new_encoder ::
  "'s::len itself \<Rightarrow> nat \<Rightarrow> nat list \<Rightarrow> 'r::len word list list \<Rightarrow> error + 'r CC_Encoding_FA" where
  "new_encoder ty N_k cs gp =
     (if length cs \<noteq> N_k then Inl (CCSoft_Exception ''Constraints size is not valid'')
      else if N_k > LENGTH('s)
        then Inl (CCSoft_Exception ''Number of input bits not supported by I/O symbol type'')
      else if length gp \<noteq> N_k
        then Inl (CCSoft_Exception ''Generator polynomial representations size error'')
      else
        (case gp of
           [] \<Rightarrow> Inl Out_Of_Range_Read
         | g0 # _ \<Rightarrow>
             (case fold (ctor_step LENGTH('r) cs gp) [0..<length cs] (Inr (length g0, 0)) of
                Inl e \<Rightarrow> Inl e
              | Inr (min_nb_outputs, m) \<Rightarrow>
                  if min_nb_outputs \<le> N_k
                  then Inl (CCSoft_Exception
                         ''The number of outputs must be larger than the number of inputs'')
                  else if min_nb_outputs > LENGTH('s)
                  then Inl (CCSoft_Exception
                         ''Number of output bits not supported by I/O symbol type'')
                  else Inr (clear \<lparr> enc_k = N_k, enc_n = min_nb_outputs, enc_m = m,
                                    constraints = cs, genpoly_representations = gp,
                                    registers = replicate N_k 0 \<rparr>))))"

text \<open>\<^verbatim>\<open>xorbits\<close>: count the ones of a register with \<^verbatim>\<open>% 2\<close> and \<^verbatim>\<open>/= 2\<close>.\<close>

function xorbits_loop :: "'r::len word \<Rightarrow> nat \<Rightarrow> nat" where
  "xorbits_loop w_reg nb_ones =
     (if w_reg \<noteq> 0 then xorbits_loop (w_reg div 2) (nb_ones + unat (w_reg mod 2)) else nb_ones)"
  by pat_completeness auto
termination
proof (relation "measure (\<lambda>(w_reg, nb_ones). unat w_reg)")
  show "wf (measure (\<lambda>(w_reg, nb_ones). unat w_reg))"
    by simp
next
  fix w_reg :: "'a::len word" and nb_ones :: nat
  assume "w_reg \<noteq> 0"
  then have pos: "0 < unat w_reg"
    by (simp add: unat_gt_0)
  have "unat (w_reg div 2) = unat w_reg div unat (2 :: 'a word)"
    by (rule unat_div)
  moreover have "unat (2 :: 'a word) = 0 \<or> unat (2 :: 'a word) = 2"
    by (cases "LENGTH('a) = 1") (auto simp: unat_eq_0)
  ultimately have "unat (w_reg div 2) < unat w_reg"
    using pos by auto
  then show "((w_reg div 2, nb_ones + unat (w_reg mod 2)), (w_reg, nb_ones))
               \<in> measure (\<lambda>(w_reg, nb_ones). unat w_reg)"
    by simp
qed

declare xorbits_loop.simps [simp del]

definition xorbits :: "'r::len word \<Rightarrow> bool" where
  "xorbits reg = (xorbits_loop reg 0 mod 2 = 1)"

text \<open>
  The first loop of \<^verbatim>\<open>encode\<close>, iteration \<open>ki\<close>: the state is \<open>(w_in, registers)\<close>.
\<close>

definition load_register ::
  "bool \<Rightarrow> nat \<Rightarrow> 's::len word \<times> 'r::len word list \<Rightarrow> 's word \<times> 'r word list" where
  "load_register no_step ki st =
     (let w_in = fst st; regs = snd st;
          r0 = regs ! ki;
          r1 = (if no_step then drop_bit 1 r0 else r0);
          r2 = push_bit 1 r1;
          r3 = r2 + ucast (w_in AND 1)
      in (drop_bit 1 w_in, regs[ki := r3]))"

text \<open>The parity bit \<^verbatim>\<open>symbol_bit\<close> of output \<open>ni\<close>, from the inner loop over \<open>ki\<close>.\<close>

definition symbol_bit_of :: "'r::len CC_Encoding_FA \<Rightarrow> 'r word list \<Rightarrow> nat \<Rightarrow> 's::len word" where
  "symbol_bit_of e regs ni =
     fold (\<lambda>ki symbol_bit.
             symbol_bit XOR
               (if xorbits (regs ! ki AND genpoly_representations e ! ki ! ni) then 1 else 0))
          [0..<enc_k e] 0"

text \<open>
  \<^verbatim>\<open>encode\<close> always returns \<^verbatim>\<open>true\<close>; the model returns the output symbol and the encoder
  with its registers updated.
\<close>

definition encode ::
  "'s::len word \<Rightarrow> bool \<Rightarrow> 'r::len CC_Encoding_FA \<Rightarrow> 's word \<times> 'r CC_Encoding_FA" where
  "encode in_symbol no_step e =
     (let regs = snd (fold (load_register no_step) [0..<enc_k e] (in_symbol, registers e));
          out_symbol = fold (\<lambda>ni out_symbol. out_symbol + push_bit ni (symbol_bit_of e regs ni))
                            [0..<enc_n e] 0
      in (out_symbol, e\<lparr> registers := regs \<rparr>))"

text \<open>The register \<open>r\<close> after one iteration of the first loop of \<^verbatim>\<open>encode\<close> with input bit \<open>b\<close>.\<close>

definition shifted_in :: "bool \<Rightarrow> 'r::len word \<Rightarrow> bool \<Rightarrow> 'r word" where
  "shifted_in no_step r b = push_bit 1 (if no_step then drop_bit 1 r else r) + of_bool b"

definition get_registers :: "'r CC_Encoding_FA \<Rightarrow> 'r word list" where
  "get_registers e = registers e"

definition set_registers :: "'r word list \<Rightarrow> 'r CC_Encoding_FA \<Rightarrow> 'r CC_Encoding_FA" where
  "set_registers regs e = e\<lparr> registers := regs \<rparr>"

text \<open>Encoding a sequence of symbols, one call of \<^verbatim>\<open>encode\<close> each, outputs in order.\<close>

fun encode_seq ::
  "'s::len word list \<Rightarrow> bool \<Rightarrow> 'r::len CC_Encoding_FA \<Rightarrow> 's word list \<times> 'r CC_Encoding_FA" where
  "encode_seq [] no_step e = ([], e)"
| "encode_seq (x # xs) no_step e =
     (let r = encode x no_step e; rs = encode_seq xs no_step (snd r)
      in (fst r # fst rs, snd rs))"

text \<open>
  What every constructed encoder satisfies and every operation keeps: the sizes that
  make the reads of \<^verbatim>\<open>encode\<close> fall inside the arrays.
\<close>

definition encoder_ok :: "'s::len itself \<Rightarrow> 'r::len CC_Encoding_FA \<Rightarrow> bool" where
  "encoder_ok ty e \<longleftrightarrow>
     length (registers e) = enc_k e \<and>
     length (genpoly_representations e) = enc_k e \<and>
     list_all (\<lambda>g. enc_n e \<le> length g) (genpoly_representations e) \<and>
     enc_n e \<le> LENGTH('s)"

text \<open>
  The specification's words for the output: the population count of a register masked
  by a tap vector, its parity, and the XOR of the parities over the registers.
\<close>

definition popcount :: "'r::len word \<Rightarrow> nat" where
  "popcount w = length (filter (bit w) [0..<LENGTH('r)])"

definition spec_output_bit :: "'r::len word list list \<Rightarrow> 'r word list \<Rightarrow> nat \<Rightarrow> bool" where
  "spec_output_bit gp regs j =
     foldr (\<lambda>i b. (popcount (regs ! i AND gp ! i ! j) mod 2 = 1) \<noteq> b) [0..<length regs] False"

text \<open>
  The specification's conditions for a \<open>ConfigurationError\<close>, with \<open>n\<close> the least
  length of a tap vector.
\<close>

definition spec_n :: "'r word list list \<Rightarrow> nat" where
  "spec_n gp = Min (set (map length gp))"

definition spec_config_error ::
  "nat \<Rightarrow> nat \<Rightarrow> nat \<Rightarrow> nat list \<Rightarrow> 'r word list list \<Rightarrow> bool" where
  "spec_config_error reg_bits sym_bits N_k cs gp \<longleftrightarrow>
     length cs \<noteq> N_k \<or> list_ex (\<lambda>c. c > reg_bits) cs \<or> length gp \<noteq> N_k \<or>
     spec_n gp \<le> N_k \<or> spec_n gp > sym_bits"

section \<open>Proofs: the reliability matrix\<close>

subsection \<open>Indices, \<^verbatim>\<open>memcpy\<close> and the zeroing loop\<close>

lemma wrap32_small: "x < 2 ^ 32 \<Longrightarrow> wrap32 x = x"
  by (simp add: wrap32_def)

lemma new_matrix_small:
  assumes "nb_symbols_log2' < 32" "2 ^ nb_symbols_log2' * message_length' < 2 ^ 32"
  shows "new_matrix nb_symbols_log2' message_length' =
           \<lparr> nb_symbols_log2 = nb_symbols_log2', nb_symbols = 2 ^ nb_symbols_log2',
             message_length = message_length', message_symbol_count = 0,
             matrix = replicate (2 ^ nb_symbols_log2' * message_length') 0 \<rparr>"
proof -
  have "(2::nat) ^ nb_symbols_log2' < 2 ^ 32"
    using assms(1) by (intro power_strict_increasing) simp_all
  then have "wrap32 (push_bit nb_symbols_log2' 1) = 2 ^ nb_symbols_log2'"
    by (simp only: push_bit_of_1 wrap32_small)
  then show ?thesis
    using assms(2) by (simp add: new_matrix_def Let_def wrap32_small)
qed

lemma upt_0_2: "[0..<2] = [0, 1]"
  by (simp add: upt_rec)

lemma upt_0_4: "[0..<4] = [0, 1, 2, 3]"
  by (simp add: upt_conv_Cons)



lemma idx_lt: "ir < ns \<Longrightarrow> ic < ml \<Longrightarrow> ic * ns + ir < ns * (ml::nat)"
proof -
  assume a: "ir < ns" "ic < ml"
  then have "ic * ns + ir < ic * ns + ns" by simp
  also have "\<dots> = (Suc ic) * ns" by simp
  also have "\<dots> \<le> ml * ns" using a(2) by (intro mult_le_mono1) simp
  finally show ?thesis by (simp add: mult.commute)
qed


lemma length_memcpy_floats:
  "off + n \<le> length dst \<Longrightarrow> n \<le> length src \<Longrightarrow> length (memcpy_floats dst off src n) = length dst"
  by (simp add: memcpy_floats_def)

lemma nth_memcpy_floats:
  "off + n \<le> length dst \<Longrightarrow> n \<le> length src \<Longrightarrow> i < length dst \<Longrightarrow>
   memcpy_floats dst off src n ! i = (if off \<le> i \<and> i < off + n then src ! (i - off) else dst ! i)"
  by (auto simp: memcpy_floats_def nth_append min_def)

lemma zero_column_prefix:
  "length (fold (\<lambda>i b. b[off + i := (0::'a::zero)]) [0..<j] buf) = length buf \<and>
   (\<forall>i < length buf. fold (\<lambda>i b. b[off + i := 0]) [0..<j] buf ! i =
      (if off \<le> i \<and> i < off + j then 0 else buf ! i))"
proof (induction j)
  case 0 then show ?case by auto
next
  case (Suc j)
  then show ?case by (auto simp: nth_list_update less_Suc_eq)
qed

lemma length_zero_column:
  "length (zero_column ns col buf) = length buf"
  using zero_column_prefix [of "col * ns" ns buf] by (simp add: zero_column_def)

lemma nth_zero_column:
  "i < length buf \<Longrightarrow>
   zero_column ns col buf ! i = (if col * ns \<le> i \<and> i < col * ns + ns then 0 else buf ! i)"
  using zero_column_prefix [of "col * ns" ns buf] by (simp add: zero_column_def)

lemma in_block_iff:
  assumes "ir < ns"
  shows "(col * ns \<le> ic * ns + ir \<and> ic * ns + ir < col * ns + ns) \<longleftrightarrow> ic = (col::nat)"
proof (cases ic col rule: linorder_cases)
  case less
  then have "Suc ic * ns \<le> col * ns" by (intro mult_le_mono1) simp
  then show ?thesis using assms less by simp
next
  case equal
  then show ?thesis using assms by simp
next
  case greater
  then have "Suc col * ns \<le> ic * ns" by (intro mult_le_mono1) simp
  then show ?thesis using assms greater by simp
qed

lemma cell_memcpy_column:
  assumes "length buf = ns * ml" "col < ml" "ns \<le> length src" "ic < ml" "ir < ns"
  shows "memcpy_floats buf (col * ns) src ns ! (ic * ns + ir) =
         (if ic = col then src ! ir else buf ! (ic * ns + ir))"
proof -
  have b: "col * ns + ns \<le> length buf"
    using idx_lt [of 0 ns col ml] assms mult_le_mono1 [of "Suc col" ml ns] by (simp add: mult.commute)
  have i: "ic * ns + ir < length buf" using assms idx_lt by simp
  show ?thesis
    using nth_memcpy_floats [OF b assms(3) i] in_block_iff [OF assms(5), of col ic] by auto
qed

lemma cell_zero_column:
  assumes "length buf = ns * ml" "ic < ml" "ir < ns"
  shows "zero_column ns col buf ! (ic * ns + ir) =
         (if ic = col then 0 else buf ! (ic * ns + ir))"
proof -
  have i: "ic * ns + ir < length buf" using assms idx_lt by simp
  show ?thesis using nth_zero_column [OF i] in_block_iff [OF assms(3), of col ic] by auto
qed

lemma length_memcpy_column:
  assumes "length buf = ns * ml" "col < ml" "ns \<le> length src"
  shows "length (memcpy_floats buf (col * ns) src ns) = length buf"
proof -
  have "Suc col * ns \<le> ml * ns" using assms(2) by (intro mult_le_mono1) simp
  then have "col * ns + ns \<le> length buf" using assms(1) by (simp add: mult.commute)
  then show ?thesis using assms(3) by (rule length_memcpy_floats)
qed

lemma memcpy_floats_whole: "n = length src \<Longrightarrow> memcpy_floats [] 0 src n = src"
  by (simp add: memcpy_floats_def)

lemma wf_new_matrix:
  "l < 32 \<Longrightarrow> 2 ^ l * ml < 2 ^ 32 \<Longrightarrow> wf_matrix (new_matrix l ml)"
  by (simp add: wf_matrix_def new_matrix_small)

lemma cell_update_cursor:
  "cell (M\<lparr>message_symbol_count := c\<rparr>) ir ic = cell M ir ic"
  by (simp add: cell_def)

lemma same_dims_update_cursor:
  "same_dims (M'\<lparr>message_symbol_count := c\<rparr>) M = same_dims M' M"
  by (simp add: same_dims_def)

lemma same_dims_enter_symbol_data_at:
  assumes "wf_matrix M" "nb_symbols M \<le> length symbol_data"
  shows "same_dims (enter_symbol_data_at col symbol_data M) M"
  using assms length_memcpy_column [of "matrix M" "nb_symbols M" "message_length M" col symbol_data]
  by (simp add: same_dims_def enter_symbol_data_at_def wf_matrix_def)

lemma cell_enter_symbol_data_at:
  assumes "wf_matrix M" "nb_symbols M \<le> length symbol_data"
    "col < message_length M" "ic < message_length M" "ir < nb_symbols M"
  shows "cell (enter_symbol_data_at col symbol_data M) ir ic =
           (if ic = col then symbol_data ! ir else cell M ir ic)"
  using assms cell_memcpy_column [of "matrix M" "nb_symbols M" "message_length M" col symbol_data ic ir]
  by (simp add: enter_symbol_data_at_def cell_def wf_matrix_def)

lemma same_dims_enter_erasure_at:
  "same_dims (enter_erasure_at col M) M"
  by (simp add: same_dims_def enter_erasure_at_def length_zero_column)

lemma cell_enter_erasure_at:
  assumes "wf_matrix M" "col < message_length M" "ic < message_length M" "ir < nb_symbols M"
  shows "cell (enter_erasure_at col M) ir ic = (if ic = col then 0 else cell M ir ic)"
  using assms cell_zero_column [of "matrix M" "nb_symbols M" "message_length M" ic ir col]
  by (simp add: enter_erasure_at_def cell_def wf_matrix_def)

lemma enter_symbol_data_cursor:
  "enter_symbol_data symbol_data M =
     (if message_symbol_count M < message_length M
      then (enter_symbol_data_at (message_symbol_count M) symbol_data M)
             \<lparr>message_symbol_count := message_symbol_count M + 1\<rparr>
      else M)"
  by (simp add: enter_symbol_data_def enter_symbol_data_at_def)

lemma enter_erasure_cursor:
  "enter_erasure M =
     (if message_symbol_count M < message_length M
      then (enter_erasure_at (message_symbol_count M) M)
             \<lparr>message_symbol_count := message_symbol_count M + 1\<rparr>
      else M)"
  by (simp add: enter_erasure_def enter_erasure_at_def)

subsection \<open>Ingestion and copy\<close>

text \<open>
  Claim C9. The cursor \<^verbatim>\<open>_message_symbol_count\<close> of a constructed matrix is 0. For a matrix
  with its allocated buffer and \<open>symbol_data\<close> of at least \<^verbatim>\<open>_nb_symbols\<close> values: when the
  cursor is below \<^verbatim>\<open>_message_length\<close>, the unindexed \<^verbatim>\<open>enter_symbol_data\<close> and
  \<^verbatim>\<open>enter_erasure\<close> advance the cursor by one, keep the dimensions, and change exactly
  the cells of the cursor's column (to the supplied values, or to zero); otherwise they
  return the matrix unchanged, cursor included. The indexed forms never change the cursor,
  write exactly the column \<open>col\<close> when it is in range, and return the matrix unchanged
  when it is not.
\<close>

theorem ingestion_cursor:
  fixes M :: "('a::zero) CC_ReliabilityMatrix"
  assumes wf: "wf_matrix M" and d: "nb_symbols M \<le> length symbol_data"
  shows
    "message_symbol_count (new_matrix l ml :: 'a CC_ReliabilityMatrix) = 0 \<and>
     (if message_symbol_count M < message_length M
      then message_symbol_count (enter_symbol_data symbol_data M) = message_symbol_count M + 1 \<and>
           message_symbol_count (enter_erasure M) = message_symbol_count M + 1 \<and>
           same_dims (enter_symbol_data symbol_data M) M \<and>
           same_dims (enter_erasure M) M \<and>
           (ic < message_length M \<and> ir < nb_symbols M \<longrightarrow>
              cell (enter_symbol_data symbol_data M) ir ic =
                (if ic = message_symbol_count M then symbol_data ! ir else cell M ir ic) \<and>
              cell (enter_erasure M) ir ic =
                (if ic = message_symbol_count M then 0 else cell M ir ic))
      else enter_symbol_data symbol_data M = M \<and> enter_erasure M = M) \<and>
     message_symbol_count (enter_symbol_data_at col symbol_data M) = message_symbol_count M \<and>
     message_symbol_count (enter_erasure_at col M) = message_symbol_count M \<and>
     (if col < message_length M
      then same_dims (enter_symbol_data_at col symbol_data M) M \<and>
           same_dims (enter_erasure_at col M) M \<and>
           (ic < message_length M \<and> ir < nb_symbols M \<longrightarrow>
              cell (enter_symbol_data_at col symbol_data M) ir ic =
                (if ic = col then symbol_data ! ir else cell M ir ic) \<and>
              cell (enter_erasure_at col M) ir ic = (if ic = col then 0 else cell M ir ic))
      else enter_symbol_data_at col symbol_data M = M \<and> enter_erasure_at col M = M)"
proof -
  let ?c = "message_symbol_count M"
  have start: "message_symbol_count (new_matrix l ml :: 'a CC_ReliabilityMatrix) = 0"
    by (simp add: new_matrix_def Let_def)
  have cursor: "if ?c < message_length M
      then message_symbol_count (enter_symbol_data symbol_data M) = ?c + 1 \<and>
           message_symbol_count (enter_erasure M) = ?c + 1 \<and>
           same_dims (enter_symbol_data symbol_data M) M \<and>
           same_dims (enter_erasure M) M \<and>
           (ic < message_length M \<and> ir < nb_symbols M \<longrightarrow>
              cell (enter_symbol_data symbol_data M) ir ic =
                (if ic = ?c then symbol_data ! ir else cell M ir ic) \<and>
              cell (enter_erasure M) ir ic = (if ic = ?c then 0 else cell M ir ic))
      else enter_symbol_data symbol_data M = M \<and> enter_erasure M = M"
  proof (cases "?c < message_length M")
    case True
    show ?thesis
      using True same_dims_enter_symbol_data_at [OF wf d, of ?c]
        same_dims_enter_erasure_at [of ?c M]
        cell_enter_symbol_data_at [OF wf d True, of ic ir]
        cell_enter_erasure_at [OF wf True, of ic ir]
      by (simp add: enter_symbol_data_cursor enter_erasure_cursor cell_update_cursor
            same_dims_update_cursor)
  next
    case False
    then show ?thesis
      by (simp add: enter_symbol_data_def enter_erasure_def)
  qed
  have indexed: "if col < message_length M
      then same_dims (enter_symbol_data_at col symbol_data M) M \<and>
           same_dims (enter_erasure_at col M) M \<and>
           (ic < message_length M \<and> ir < nb_symbols M \<longrightarrow>
              cell (enter_symbol_data_at col symbol_data M) ir ic =
                (if ic = col then symbol_data ! ir else cell M ir ic) \<and>
              cell (enter_erasure_at col M) ir ic = (if ic = col then 0 else cell M ir ic))
      else enter_symbol_data_at col symbol_data M = M \<and> enter_erasure_at col M = M"
  proof (cases "col < message_length M")
    case True
    show ?thesis
      using True same_dims_enter_symbol_data_at [OF wf d, of col]
        same_dims_enter_erasure_at [of col M]
        cell_enter_symbol_data_at [OF wf d True, of ic ir]
        cell_enter_erasure_at [OF wf True, of ic ir]
      by simp
  next
    case False
    then show ?thesis
      by (simp add: enter_symbol_data_at_def enter_erasure_at_def)
  qed
  have keep: "message_symbol_count (enter_symbol_data_at col symbol_data M) = ?c"
    "message_symbol_count (enter_erasure_at col M) = ?c"
    by (simp_all add: enter_symbol_data_at_def enter_erasure_at_def)
  show ?thesis
    using start cursor indexed keep by simp
qed

theorem ingestion_cursor_witness:
  "wf_matrix (new_matrix 1 2 :: real CC_ReliabilityMatrix) \<and>
   nb_symbols (new_matrix 1 2 :: real CC_ReliabilityMatrix) \<le> length [1/4, 3/4 :: real] \<and>
   message_symbol_count (new_matrix 1 2 :: real CC_ReliabilityMatrix) = 0 \<and>
   message_symbol_count (enter_symbol_data [1/4, 3/4] (new_matrix 1 2 :: real CC_ReliabilityMatrix)) = 1 \<and>
   cell (enter_symbol_data [1/4, 3/4] (new_matrix 1 2 :: real CC_ReliabilityMatrix)) 1 0 = 3/4 \<and>
   cell (enter_erasure (new_matrix 1 2 :: real CC_ReliabilityMatrix)) 1 0 = 0 \<and>
   enter_symbol_data_at 2 [1/4, 3/4] (new_matrix 1 2 :: real CC_ReliabilityMatrix) = new_matrix 1 2 \<and>
   enter_erasure_at 2 (new_matrix 1 2 :: real CC_ReliabilityMatrix) = new_matrix 1 2"
  using ingestion_cursor [of "new_matrix 1 2 :: real CC_ReliabilityMatrix" "[1/4, 3/4]" 1 2 0 1 2]
  by (simp add: wf_matrix_def new_matrix_small)

text \<open>
  Claim C10. The copy constructor duplicates the buffer and the dimensions and sets the
  cursor of the copy to 0, whatever the cursor of the source was. On a copy with at least
  one column, the first unindexed \<^verbatim>\<open>enter_symbol_data\<close> or \<^verbatim>\<open>enter_erasure\<close> therefore
  overwrites column 0 (and only column 0) and leaves the cursor at 1.
\<close>

theorem copy_resets_cursor:
  fixes relmat :: "('a::zero) CC_ReliabilityMatrix"
  assumes wf: "wf_matrix relmat" and d: "nb_symbols relmat \<le> length symbol_data"
  shows
    "matrix (copy_matrix relmat) = matrix relmat \<and>
     same_dims (copy_matrix relmat) relmat \<and>
     message_symbol_count (copy_matrix relmat) = 0 \<and>
     (0 < message_length relmat \<longrightarrow>
        message_symbol_count (enter_symbol_data symbol_data (copy_matrix relmat)) = 1 \<and>
        message_symbol_count (enter_erasure (copy_matrix relmat)) = 1 \<and>
        (ic < message_length relmat \<and> ir < nb_symbols relmat \<longrightarrow>
           cell (enter_symbol_data symbol_data (copy_matrix relmat)) ir ic =
             (if ic = 0 then symbol_data ! ir else cell relmat ir ic) \<and>
           cell (enter_erasure (copy_matrix relmat)) ir ic =
             (if ic = 0 then 0 else cell relmat ir ic)))"
proof -
  have len: "length (matrix relmat) = nb_symbols relmat * message_length relmat"
    using wf by (simp add: wf_matrix_def)
  have "wrap32 (nb_symbols relmat * message_length relmat) =
        nb_symbols relmat * message_length relmat"
    using wf by (intro wrap32_small) (simp add: wf_matrix_def)
  then have m: "matrix (copy_matrix relmat) = matrix relmat"
    using memcpy_floats_whole [of "nb_symbols relmat * message_length relmat" "matrix relmat"] len
    by (simp add: copy_matrix_def)
  have c: "copy_matrix relmat = relmat\<lparr>message_symbol_count := 0\<rparr>"
    using m by (simp add: copy_matrix_def)
  have wfc: "wf_matrix (copy_matrix relmat)"
    using wf by (simp add: c wf_matrix_def)
  have dc: "nb_symbols (copy_matrix relmat) \<le> length symbol_data"
    using d by (simp add: c)
  have cells: "cell (copy_matrix relmat) ir ic = cell relmat ir ic"
    by (simp add: c cell_def)
  have "message_symbol_count (enter_symbol_data symbol_data (copy_matrix relmat)) = 1 \<and>
        message_symbol_count (enter_erasure (copy_matrix relmat)) = 1 \<and>
        (ic < message_length relmat \<and> ir < nb_symbols relmat \<longrightarrow>
           cell (enter_symbol_data symbol_data (copy_matrix relmat)) ir ic =
             (if ic = 0 then symbol_data ! ir else cell relmat ir ic) \<and>
           cell (enter_erasure (copy_matrix relmat)) ir ic =
             (if ic = 0 then 0 else cell relmat ir ic))"
    if pos: "0 < message_length relmat"
  proof -
    have pos': "0 < message_length (copy_matrix relmat)"
      using pos by (simp add: c)
    show ?thesis
      using pos cells cell_enter_symbol_data_at [OF wfc dc pos', of ic ir]
        cell_enter_erasure_at [OF wfc pos', of ic ir]
      by (simp add: enter_symbol_data_cursor enter_erasure_cursor cell_update_cursor c)
  qed
  then show ?thesis
    using m c by (simp add: same_dims_def)
qed

theorem copy_resets_cursor_witness:
  "wf_matrix (enter_symbol_data [1/4, 3/4] (new_matrix 1 1 :: real CC_ReliabilityMatrix)) \<and>
   message_symbol_count (enter_symbol_data [1/4, 3/4] (new_matrix 1 1 :: real CC_ReliabilityMatrix)) = 1 \<and>
   message_length (enter_symbol_data [1/4, 3/4] (new_matrix 1 1 :: real CC_ReliabilityMatrix)) = 1 \<and>
   message_symbol_count (copy_matrix (enter_symbol_data [1/4, 3/4] (new_matrix 1 1 :: real CC_ReliabilityMatrix))) = 0 \<and>
   cell (copy_matrix (enter_symbol_data [1/4, 3/4] (new_matrix 1 1 :: real CC_ReliabilityMatrix))) 1 0 = 3/4 \<and>
   cell (enter_symbol_data [1/2, 1/2]
          (copy_matrix (enter_symbol_data [1/4, 3/4] (new_matrix 1 1 :: real CC_ReliabilityMatrix)))) 1 0 = 1/2 \<and>
   cell (enter_erasure
          (copy_matrix (enter_symbol_data [1/4, 3/4] (new_matrix 1 1 :: real CC_ReliabilityMatrix)))) 1 0 = 0"
  using copy_resets_cursor
    [of "enter_symbol_data [1/4, 3/4] (new_matrix 1 1 :: real CC_ReliabilityMatrix)" "[1/2, 1/2]" 0 1]
  by (simp add: wf_matrix_def new_matrix_small enter_symbol_data_def memcpy_floats_def cell_def
        copy_matrix_def wrap32_def)

subsection \<open>normalize\<close>










subsection \<open>Maximum search\<close>

text \<open>Nested loops as one scan over the pairs (column, row).\<close>

lemma fold_product:
  "fold (\<lambda>ic. fold (f ic) rs) cs s = fold (\<lambda>p. f (fst p) (snd p)) (List.product cs rs) s"
  by (induction cs arbitrary: s) (simp_all add: fold_map comp_def)

lemma sorted_wrt_product:
  "sorted_wrt (<) cs \<Longrightarrow> sorted_wrt (<) rs \<Longrightarrow> sorted_wrt scan_less (List.product cs rs)"
proof (induction cs)
  case Nil
  then show ?case by simp
next
  case (Cons c cs)
  have a: "sorted_wrt scan_less (map (Pair c) rs)"
    using Cons.prems(2) by (simp add: sorted_wrt_map scan_less_def)
  have b: "sorted_wrt scan_less (List.product cs rs)"
    using Cons by simp
  have c: "\<forall>x\<in>set (map (Pair c) rs). \<forall>y\<in>set (List.product cs rs). scan_less x y"
    using Cons.prems(1) by (auto simp: scan_less_def)
  show ?case
    using a b c by (simp add: sorted_wrt_append)
qed

lemma scan_less_split:
  assumes s: "sorted_wrt scan_less (ys @ b # zs)" and q: "q \<in> set (ys @ b # zs)" and l: "scan_less b q"
  shows "q \<in> set zs"
proof -
  have "\<forall>y\<in>set ys. scan_less y b"
    using s by (simp add: sorted_wrt_append)
  then have "q \<notin> set ys"
    using l by (auto simp: scan_less_def)
  moreover have "q \<noteq> b"
    using l by (auto simp: scan_less_def)
  ultimately show ?thesis
    using q by auto
qed

lemma find_max_scan:
  fixes v :: "nat \<times> nat \<Rightarrow> 'a::{zero,linorder}"
  assumes nonneg: "\<forall>p\<in>set ps. 0 \<le> v p"
    and step: "\<And>p st. f p st = (if v p \<ge> fst st then (v p, snd p, fst p) else st)"
  shows "if ps = [] then fold f ps (0, 0, 0) = (0, 0, 0)
         else \<exists>ys zs b. ps = ys @ b # zs \<and> fold f ps (0, 0, 0) = (v b, snd b, fst b) \<and>
                (\<forall>p\<in>set ys. v p \<le> v b) \<and> (\<forall>p\<in>set zs. v p < v b)"
  using nonneg
proof (induction ps rule: rev_induct)
  case Nil
  then show ?case by simp
next
  case (snoc p ps)
  have nn: "\<forall>p\<in>set ps. 0 \<le> v p" and vp: "0 \<le> v p"
    using snoc.prems by simp_all
  have f: "fold f (ps @ [p]) (0, 0, 0) = f p (fold f ps (0, 0, 0))"
    by simp
  show ?case
  proof (cases "ps = []")
    case True
    have "[p] = [] @ p # []" "fold f [p] (0, 0, 0) = (v p, snd p, fst p)"
      using vp by (simp_all add: step)
    then have "\<exists>ys zs b. [p] = ys @ b # zs \<and> fold f [p] (0, 0, 0) = (v b, snd b, fst b) \<and>
                (\<forall>p\<in>set ys. v p \<le> v b) \<and> (\<forall>p\<in>set zs. v p < v b)"
      by (intro exI [of _ "[]"] exI [of _ p]) simp
    then show ?thesis
      using True by simp
  next
    case False
    then have "\<exists>ys zs b. ps = ys @ b # zs \<and> fold f ps (0, 0, 0) = (v b, snd b, fst b) \<and>
                (\<forall>p\<in>set ys. v p \<le> v b) \<and> (\<forall>p\<in>set zs. v p < v b)"
      using snoc.IH [OF nn] by simp
    then obtain ys zs b where b: "ps = ys @ b # zs" "fold f ps (0, 0, 0) = (v b, snd b, fst b)"
      "\<forall>p\<in>set ys. v p \<le> v b" "\<forall>p\<in>set zs. v p < v b"
      by blast
    show ?thesis
    proof (cases "v p \<ge> v b")
      case True
      have "ps @ [p] = ps @ p # []" by simp
      moreover have "fold f (ps @ [p]) (0, 0, 0) = (v p, snd p, fst p)"
        using True by (simp add: step b(2))
      moreover have "\<forall>q\<in>set ps. v q \<le> v p"
        using b True by force
      ultimately have "\<exists>ys zs b. ps @ [p] = ys @ b # zs \<and>
                fold f (ps @ [p]) (0, 0, 0) = (v b, snd b, fst b) \<and>
                (\<forall>p\<in>set ys. v p \<le> v b) \<and> (\<forall>p\<in>set zs. v p < v b)"
        by (intro exI [of _ ps] exI [of _ "[]"] exI [of _ p]) simp
      then show ?thesis
        by simp
    next
      case g: False
      have "ps @ [p] = ys @ b # (zs @ [p])"
        using b(1) by simp
      moreover have "fold f (ps @ [p]) (0, 0, 0) = (v b, snd b, fst b)"
        using g by (simp add: step b(2))
      moreover have "\<forall>q\<in>set (zs @ [p]). v q < v b"
        using b(4) g by auto
      ultimately have "\<exists>ys zs b. ps @ [p] = ys @ b # zs \<and>
                fold f (ps @ [p]) (0, 0, 0) = (v b, snd b, fst b) \<and>
                (\<forall>p\<in>set ys. v p \<le> v b) \<and> (\<forall>p\<in>set zs. v p < v b)"
        using b(3) by (intro exI [of _ ys] exI [of _ "zs @ [p]"] exI [of _ b]) simp
      then show ?thesis
        by simp
    qed
  qed
qed

lemma set_product_upt:
  "set (List.product [0..<ml] [0..<ns]) = {p. fst p < ml \<and> snd p < ns}"
  by auto

lemma product_Nil_right: "List.product xs [] = []"
  by (induction xs) simp_all

lemma find_max_as_scan:
  "find_max M =
     fold (\<lambda>p. find_max_cell (matrix M) (nb_symbols M) (fst p) (snd p))
          (List.product [0..<message_length M] [0..<nb_symbols M]) (0, 0, 0)"
  unfolding find_max_def by (rule fold_product)

lemma nonneg_cell:
  assumes "wf_matrix M" "list_all (\<lambda>x. 0 \<le> x) (matrix M)" "ic < message_length M" "ir < nb_symbols M"
  shows "0 \<le> matrix M ! (ic * nb_symbols M + ir)"
proof -
  have "ic * nb_symbols M + ir < length (matrix M)"
    using assms idx_lt [of ir "nb_symbols M" ic "message_length M"] by (simp add: wf_matrix_def)
  then show ?thesis
    using assms(2) by (simp add: list_all_length)
qed

lemma find_max_result:
  fixes M :: "('a::{zero,linorder}) CC_ReliabilityMatrix"
  assumes wf: "wf_matrix M" and nonneg: "list_all (\<lambda>x. 0 \<le> x) (matrix M)"
    and ne: "0 < nb_symbols M" "0 < message_length M"
  shows "\<exists>r c. find_max M = (cell M r c, r, c) \<and> r < nb_symbols M \<and> c < message_length M \<and>
           (\<forall>ic ir. ic < message_length M \<and> ir < nb_symbols M \<longrightarrow>
              cell M ir ic \<le> cell M r c \<and>
              (c < ic \<or> (ic = c \<and> r < ir) \<longrightarrow> cell M ir ic < cell M r c))"
proof -
  let ?ps = "List.product [0..<message_length M] [0..<nb_symbols M]"
  let ?v = "\<lambda>p. matrix M ! (fst p * nb_symbols M + snd p)"
  let ?f = "\<lambda>p. find_max_cell (matrix M) (nb_symbols M) (fst p) (snd p)"
  have nn: "\<forall>p\<in>set ?ps. 0 \<le> ?v p"
    using nonneg_cell [OF wf nonneg] by auto
  have step: "\<And>p st. ?f p st = (if ?v p \<ge> fst st then (?v p, snd p, fst p) else st)"
    by (simp add: find_max_cell_def)
  have "(0, 0) \<in> set ?ps"
    using ne by simp
  then have "?ps \<noteq> []"
    by (metis empty_iff empty_set)
  then have "\<exists>ys zs b. ?ps = ys @ b # zs \<and> fold ?f ?ps (0, 0, 0) = (?v b, snd b, fst b) \<and>
                (\<forall>p\<in>set ys. ?v p \<le> ?v b) \<and> (\<forall>p\<in>set zs. ?v p < ?v b)"
    using find_max_scan [of ?ps ?v ?f, OF nn step] by simp
  then obtain ys zs b where b: "?ps = ys @ b # zs" "fold ?f ?ps (0, 0, 0) = (?v b, snd b, fst b)"
      "\<forall>p\<in>set ys. ?v p \<le> ?v b" "\<forall>p\<in>set zs. ?v p < ?v b"
    by blast
  have bin: "b \<in> set ?ps"
    unfolding b(1) by simp
  then have brange: "snd b < nb_symbols M" "fst b < message_length M"
    by auto
  have sorted: "sorted_wrt scan_less (ys @ b # zs)"
    using sorted_wrt_product [of "[0..<message_length M]" "[0..<nb_symbols M]"] b(1)
    by (simp add: sorted_wrt_upt del: set_product)  
  have all: "cell M ir ic \<le> cell M (snd b) (fst b) \<and>
             (fst b < ic \<or> (ic = fst b \<and> snd b < ir) \<longrightarrow> cell M ir ic < cell M (snd b) (fst b))"
    if "ic < message_length M \<and> ir < nb_symbols M" for ic ir
  proof -
    have q: "(ic, ir) \<in> set (ys @ b # zs)"
      using that b(1) [symmetric] by simp
    have le: "cell M ir ic \<le> cell M (snd b) (fst b)"
      using q b(3,4) by (auto simp: cell_def dest: less_imp_le)
    have "cell M ir ic < cell M (snd b) (fst b)" if "fst b < ic \<or> (ic = fst b \<and> snd b < ir)"
    proof -
      have "scan_less b (ic, ir)"
        using that by (auto simp: scan_less_def)
      then have "(ic, ir) \<in> set zs"
        using scan_less_split [OF sorted q] by simp
      then show ?thesis
        using b(4) by (auto simp: cell_def)
    qed
    then show ?thesis
      using le by simp
  qed
  have "find_max M = (cell M (snd b) (fst b), snd b, fst b)"
    using b(2) by (simp add: find_max_as_scan cell_def)
  then show ?thesis
    using brange all by blast
qed

text \<open>
  Claim C4, as the code has it. For a matrix with its allocated buffer and entries
  \<open>\<ge> 0\<close>: the value \<^verbatim>\<open>find_max\<close> returns is \<open>\<ge>\<close> every cell. An empty matrix gives
  value 0, row 0, column 0. Otherwise the returned (row, column) is a cell of the matrix
  that holds the returned value, and every cell scanned after it (a higher column, or
  the same column and a higher row) is strictly smaller: the last cell of the scan order
  that attains the maximum. In particular a non-empty matrix of zeros gives value 0 at the
  last cell, row \<open>nb_symbols - 1\<close> and column \<open>message_length - 1\<close>, not at row 0, column 0.
\<close>

theorem find_max_last_maximum:
  fixes M :: "('a::{zero,linorder}) CC_ReliabilityMatrix"
  assumes wf: "wf_matrix M" and nonneg: "list_all (\<lambda>x. 0 \<le> x) (matrix M)"
  shows
   "(ic < message_length M \<and> ir < nb_symbols M \<longrightarrow> cell M ir ic \<le> fst (find_max M)) \<and>
    (if nb_symbols M = 0 \<or> message_length M = 0 then find_max M = (0, 0, 0)
     else fst (snd (find_max M)) < nb_symbols M \<and>
          snd (snd (find_max M)) < message_length M \<and>
          cell M (fst (snd (find_max M))) (snd (snd (find_max M))) = fst (find_max M) \<and>
          (ic < message_length M \<and> ir < nb_symbols M \<and>
           (snd (snd (find_max M)) < ic \<or>
            (ic = snd (snd (find_max M)) \<and> fst (snd (find_max M)) < ir)) \<longrightarrow>
             cell M ir ic < fst (find_max M)) \<and>
          (list_all (\<lambda>x. x = 0) (matrix M) \<longrightarrow>
             find_max M = (0, nb_symbols M - 1, message_length M - 1)))"
proof (cases "nb_symbols M = 0 \<or> message_length M = 0")
  case True
  then have "List.product [0..<message_length M] [0..<nb_symbols M] = []"
    by (auto simp: product_Nil_right)
  then have "find_max M = (0, 0, 0)"
    by (simp add: find_max_as_scan)
  then show ?thesis
    using True by auto
next
  case False
  then have ne: "0 < nb_symbols M" "0 < message_length M"
    by simp_all
  obtain r c where rc: "find_max M = (cell M r c, r, c)" "r < nb_symbols M" "c < message_length M"
    and all: "\<And>ic ir. ic < message_length M \<and> ir < nb_symbols M \<Longrightarrow>
              cell M ir ic \<le> cell M r c \<and>
              (c < ic \<or> (ic = c \<and> r < ir) \<longrightarrow> cell M ir ic < cell M r c)"
    using find_max_result [OF wf nonneg ne] by blast
  have zero: "find_max M = (0, nb_symbols M - 1, message_length M - 1)"
    if z: "list_all (\<lambda>x. x = 0) (matrix M)"
  proof -
    have cz: "cell M ir ic = 0" if "ic < message_length M" "ir < nb_symbols M" for ic ir
    proof -
      have "ic * nb_symbols M + ir < length (matrix M)"
        using that wf idx_lt [of ir "nb_symbols M" ic "message_length M"] by (simp add: wf_matrix_def)
      then show ?thesis
        using z by (simp add: list_all_length cell_def)
    qed
    let ?lr = "nb_symbols M - 1" and ?lc = "message_length M - 1"
    have last: "?lc < message_length M \<and> ?lr < nb_symbols M"
      using ne by simp
    have "\<not> (c < ?lc \<or> (?lc = c \<and> r < ?lr))"
      using all [OF last] cz [of ?lc ?lr] cz [OF rc(3,2)] last by auto
    then have "c = ?lc" "r = ?lr"
      using rc(2,3) by auto
    then show ?thesis
      using rc(1) cz [OF rc(3,2)] by simp
  qed
  show ?thesis
    using False rc all [of ic ir] zero by auto
qed

theorem find_max_last_maximum_witness:
  "wf_matrix (enter_symbol_data [1/2, 1/2] (new_matrix 1 2 :: real CC_ReliabilityMatrix)) \<and>
   list_all (\<lambda>x. 0 \<le> x) (matrix (enter_symbol_data [1/2, 1/2] (new_matrix 1 2 :: real CC_ReliabilityMatrix))) \<and>
   find_max (enter_symbol_data [1/2, 1/2] (new_matrix 1 2 :: real CC_ReliabilityMatrix)) = (1/2, 1, 0) \<and>
   cell (enter_symbol_data [1/2, 1/2] (new_matrix 1 2 :: real CC_ReliabilityMatrix)) 0 0 = 1/2 \<and>
   cell (enter_symbol_data [1/2, 1/2] (new_matrix 1 2 :: real CC_ReliabilityMatrix)) 0 1 = 0"
  using find_max_last_maximum
    [of "enter_symbol_data [1/2, 1/2] (new_matrix 1 2 :: real CC_ReliabilityMatrix)" 1 0]
  by (simp add: wf_matrix_def new_matrix_small enter_symbol_data_def memcpy_floats_def find_max_def
        find_max_cell_def cell_def upt_0_2 list_all_iff)

text \<open>
  Claim C4 as stated fails on its last clause: on the zeroed matrix with two rows and two
  columns every value is 0 and \<^verbatim>\<open>find_max\<close> returns row 1, column 1.
\<close>

theorem find_max_all_zero_counterexample:
  "list_all (\<lambda>x. x = 0) (matrix (new_matrix 1 2 :: real CC_ReliabilityMatrix)) \<and>
   find_max (new_matrix 1 2 :: real CC_ReliabilityMatrix) = (0, 1, 1) \<and>
   find_max (new_matrix 1 2 :: real CC_ReliabilityMatrix) \<noteq> (0, 0, 0)"
  by (simp add: new_matrix_small find_max_def find_max_cell_def upt_0_2 list_all_iff)

lemma find_max_in_col_scan:
  fixes v :: "nat \<Rightarrow> 'a::{zero,linorder}"
  assumes nonneg: "\<forall>r\<in>set rs. 0 \<le> v r"
    and step: "\<And>r st. f r st = (if v r \<ge> fst st \<and> v r < bound then (v r, r) else st)"
  shows "if \<forall>r\<in>set rs. \<not> v r < bound then fold f rs (0, 0) = (0, 0)
         else \<exists>ys zs b. rs = ys @ b # zs \<and> fold f rs (0, 0) = (v b, b) \<and> v b < bound \<and>
                (\<forall>r\<in>set ys. v r < bound \<longrightarrow> v r \<le> v b) \<and>
                (\<forall>r\<in>set zs. v r < bound \<longrightarrow> v r < v b)"
  using nonneg
proof (induction rs rule: rev_induct)
  case Nil
  then show ?case by simp
next
  case (snoc p ps)
  have nn: "\<forall>r\<in>set ps. 0 \<le> v r" and vp: "0 \<le> v p"
    using snoc.prems by simp_all
  let ?goal = "\<exists>ys zs b. ps @ [p] = ys @ b # zs \<and> fold f (ps @ [p]) (0, 0) = (v b, b) \<and>
                v b < bound \<and> (\<forall>r\<in>set ys. v r < bound \<longrightarrow> v r \<le> v b) \<and>
                (\<forall>r\<in>set zs. v r < bound \<longrightarrow> v r < v b)"
  show ?case
  proof (cases "\<forall>r\<in>set ps. \<not> v r < bound")
    case True
    then have st: "fold f ps (0, 0) = (0, 0)"
      using snoc.IH [OF nn] by simp
    show ?thesis
    proof (cases "v p < bound")
      case True
      have "fold f (ps @ [p]) (0, 0) = (v p, p)"
        using True vp by (simp add: st step)
      then have ?goal
        using True \<open>\<forall>r\<in>set ps. \<not> v r < bound\<close>
        by (intro exI [of _ ps] exI [of _ "[]"] exI [of _ p]) simp
      then show ?thesis
        using True by auto
    next
      case False
      then show ?thesis
        using True by (simp add: st step)
    qed
  next
    case False
    then have "\<exists>ys zs b. ps = ys @ b # zs \<and> fold f ps (0, 0) = (v b, b) \<and> v b < bound \<and>
                (\<forall>r\<in>set ys. v r < bound \<longrightarrow> v r \<le> v b) \<and>
                (\<forall>r\<in>set zs. v r < bound \<longrightarrow> v r < v b)"
      using snoc.IH [OF nn] by simp
    then obtain ys zs b where b: "ps = ys @ b # zs" "fold f ps (0, 0) = (v b, b)" "v b < bound"
      "\<forall>r\<in>set ys. v r < bound \<longrightarrow> v r \<le> v b" "\<forall>r\<in>set zs. v r < bound \<longrightarrow> v r < v b"
      by blast
    have ?goal
    proof (cases "v p \<ge> v b \<and> v p < bound")
      case True
      have "fold f (ps @ [p]) (0, 0) = (v p, p)"
        using True by (simp add: step b(2))
      moreover have "\<forall>r\<in>set ps. v r < bound \<longrightarrow> v r \<le> v p"
        using b True by force
      ultimately show ?thesis
        using True by (intro exI [of _ ps] exI [of _ "[]"] exI [of _ p]) simp
    next
      case g: False
      have "ps @ [p] = ys @ b # (zs @ [p])"
        using b(1) by simp
      moreover have "fold f (ps @ [p]) (0, 0) = (v b, b)"
        using g by (auto simp: step b(2))
      moreover have "\<forall>r\<in>set (zs @ [p]). v r < bound \<longrightarrow> v r < v b"
        using b(5) g by auto
      ultimately show ?thesis
        using b(3,4) by (intro exI [of _ ys] exI [of _ "zs @ [p]"] exI [of _ b]) simp
    qed
    then show ?thesis
      using False by auto
  qed
qed

lemma upt_split_after:
  assumes "[0..<n] = ys @ b # zs" "r < n" "b < r"
  shows "r \<in> set zs"
proof -
  have s: "sorted_wrt (<) (ys @ b # zs)"
    using assms(1) [symmetric] by (simp add: sorted_wrt_upt)
  then have "\<forall>y\<in>set ys. y < b"
    by (simp add: sorted_wrt_append)
  then have "r \<notin> set ys" "r \<noteq> b"
    using assms(3) by auto
  moreover have "r \<in> set (ys @ b # zs)"
    using assms(1) [symmetric] assms(2) by simp
  ultimately show ?thesis
    by auto
qed

lemma list_ex_column:
  "list_ex P (column M ic) \<longleftrightarrow> (\<exists>ir<nb_symbols M. P (cell M ir ic))"
  by (auto simp: list_ex_iff column_def)

lemma find_max_in_col_result:
  fixes M :: "('a::{zero,linorder}) CC_ReliabilityMatrix"
  assumes wf: "wf_matrix M" and nonneg: "list_all (\<lambda>x. 0 \<le> x) (matrix M)"
    and col: "i_col < message_length M"
  shows "if list_ex (\<lambda>x. x < prev_max) (column M i_col)
         then \<exists>r. find_max_in_col M i_col prev_max = (cell M r i_col, r) \<and> r < nb_symbols M \<and>
                cell M r i_col < prev_max \<and>
                (\<forall>ir. ir < nb_symbols M \<and> cell M ir i_col < prev_max \<longrightarrow>
                   cell M ir i_col \<le> cell M r i_col \<and> (r < ir \<longrightarrow> cell M ir i_col < cell M r i_col))
         else find_max_in_col M i_col prev_max = (0, 0)"
proof -
  let ?rs = "[0..<nb_symbols M]"
  let ?v = "\<lambda>r. matrix M ! (i_col * nb_symbols M + r)"
  let ?f = "find_max_in_col_cell (matrix M) (nb_symbols M) i_col prev_max"
  have nn: "\<forall>r\<in>set ?rs. 0 \<le> ?v r"
    using nonneg_cell [OF wf nonneg col] by auto
  have step: "\<And>r st. ?f r st = (if ?v r \<ge> fst st \<and> ?v r < prev_max then (?v r, r) else st)"
    by (simp add: find_max_in_col_cell_def)
  note scan = find_max_in_col_scan [of ?rs ?v ?f prev_max, OF nn step]
  have ex: "list_ex (\<lambda>x. x < prev_max) (column M i_col) \<longleftrightarrow> \<not> (\<forall>r\<in>set ?rs. \<not> ?v r < prev_max)"
    by (auto simp: list_ex_column cell_def)
  show ?thesis
  proof (cases "list_ex (\<lambda>x. x < prev_max) (column M i_col)")
    case False
    then show ?thesis
      using scan ex by (simp add: find_max_in_col_def)
  next
    case True
    then have "\<exists>ys zs b. ?rs = ys @ b # zs \<and> fold ?f ?rs (0, 0) = (?v b, b) \<and> ?v b < prev_max \<and>
                (\<forall>r\<in>set ys. ?v r < prev_max \<longrightarrow> ?v r \<le> ?v b) \<and>
                (\<forall>r\<in>set zs. ?v r < prev_max \<longrightarrow> ?v r < ?v b)"
      using scan ex by simp
    then obtain ys zs b where b: "?rs = ys @ b # zs" "fold ?f ?rs (0, 0) = (?v b, b)"
      "?v b < prev_max" "\<forall>r\<in>set ys. ?v r < prev_max \<longrightarrow> ?v r \<le> ?v b"
      "\<forall>r\<in>set zs. ?v r < prev_max \<longrightarrow> ?v r < ?v b"
      by blast
    have "b \<in> set ?rs"
      unfolding b(1) by simp
    then have br: "b < nb_symbols M"
      by simp
    have all: "cell M ir i_col \<le> cell M b i_col \<and> (b < ir \<longrightarrow> cell M ir i_col < cell M b i_col)"
      if "ir < nb_symbols M \<and> cell M ir i_col < prev_max" for ir
    proof -
      have q: "ir \<in> set (ys @ b # zs)"
        using that b(1) [symmetric] by simp
      have le: "cell M ir i_col \<le> cell M b i_col"
        using q b(4,5) that by (auto simp: cell_def dest: less_imp_le)
      have "cell M ir i_col < cell M b i_col" if "b < ir"
        using upt_split_after [OF b(1) _ that] \<open>ir < nb_symbols M \<and> cell M ir i_col < prev_max\<close> b(5)
        by (auto simp: cell_def)
      then show ?thesis
        using le by simp
    qed
    have "find_max_in_col M i_col prev_max = (cell M b i_col, b)"
      using b(2) by (simp add: find_max_in_col_def cell_def)
    moreover have "cell M b i_col < prev_max"
      using b(3) by (simp add: cell_def)
    ultimately show ?thesis
      using True br all by auto
  qed
qed

text \<open>
  Claim C5. For a matrix with its allocated buffer and entries \<open>\<ge> 0\<close>, a column in range
  and any bound: when some cell of the column is strictly below the bound,
  \<^verbatim>\<open>find_max_in_col\<close> returns the greatest value among the cells below the bound, and the
  returned row holds that value and is the last such row (every later row below the bound
  is strictly smaller); when no cell is below the bound it returns value 0 and row 0.
  Calling again with the returned value as the bound gives, when a cell below it exists,
  a strictly smaller value with no cell of the column strictly between the two: repeated
  calls enumerate the values of the column in strictly descending order.
\<close>

theorem find_max_in_col_below_bound:
  fixes M :: "('a::{zero,linorder}) CC_ReliabilityMatrix"
  assumes wf: "wf_matrix M" and nonneg: "list_all (\<lambda>x. 0 \<le> x) (matrix M)"
    and col: "i_col < message_length M"
  shows
   "(if list_ex (\<lambda>x. x < prev_max) (column M i_col)
     then snd (find_max_in_col M i_col prev_max) < nb_symbols M \<and>
          cell M (snd (find_max_in_col M i_col prev_max)) i_col = fst (find_max_in_col M i_col prev_max) \<and>
          fst (find_max_in_col M i_col prev_max) < prev_max \<and>
          (ir < nb_symbols M \<and> cell M ir i_col < prev_max \<longrightarrow>
             cell M ir i_col \<le> fst (find_max_in_col M i_col prev_max)) \<and>
          (ir < nb_symbols M \<and> cell M ir i_col < prev_max \<and>
           snd (find_max_in_col M i_col prev_max) < ir \<longrightarrow>
             cell M ir i_col < fst (find_max_in_col M i_col prev_max))
     else find_max_in_col M i_col prev_max = (0, 0)) \<and>
    (list_ex (\<lambda>x. x < prev_max) (column M i_col) \<and>
     list_ex (\<lambda>x. x < fst (find_max_in_col M i_col prev_max)) (column M i_col) \<longrightarrow>
       fst (find_max_in_col M i_col (fst (find_max_in_col M i_col prev_max)))
         < fst (find_max_in_col M i_col prev_max) \<and>
       (ir < nb_symbols M \<longrightarrow>
          \<not> (fst (find_max_in_col M i_col (fst (find_max_in_col M i_col prev_max))) < cell M ir i_col \<and>
             cell M ir i_col < fst (find_max_in_col M i_col prev_max))))"
proof -
  let ?r1 = "find_max_in_col M i_col prev_max"
  let ?r2 = "find_max_in_col M i_col (fst ?r1)"
  note first = find_max_in_col_result [OF wf nonneg col, of prev_max]
  note second = find_max_in_col_result [OF wf nonneg col, of "fst ?r1"]
  have a: "if list_ex (\<lambda>x. x < prev_max) (column M i_col)
     then snd ?r1 < nb_symbols M \<and> cell M (snd ?r1) i_col = fst ?r1 \<and> fst ?r1 < prev_max \<and>
          (ir < nb_symbols M \<and> cell M ir i_col < prev_max \<longrightarrow> cell M ir i_col \<le> fst ?r1) \<and>
          (ir < nb_symbols M \<and> cell M ir i_col < prev_max \<and> snd ?r1 < ir \<longrightarrow>
             cell M ir i_col < fst ?r1)
     else ?r1 = (0, 0)"
    using first by (cases "list_ex (\<lambda>x. x < prev_max) (column M i_col)") auto
  have b: "fst ?r2 < fst ?r1 \<and>
       (ir < nb_symbols M \<longrightarrow> \<not> (fst ?r2 < cell M ir i_col \<and> cell M ir i_col < fst ?r1))"
    if "list_ex (\<lambda>x. x < fst ?r1) (column M i_col)"
    using second that by (auto simp: not_less)
  show ?thesis
    using a b by simp
qed

theorem find_max_in_col_below_bound_witness:
  "wf_matrix (enter_symbol_data [1/2, 3/10, 1/2, 1/5] (new_matrix 2 1 :: real CC_ReliabilityMatrix)) \<and>
   list_all (\<lambda>x. 0 \<le> x)
     (matrix (enter_symbol_data [1/2, 3/10, 1/2, 1/5] (new_matrix 2 1 :: real CC_ReliabilityMatrix))) \<and>
   list_ex (\<lambda>x. x < 1)
     (column (enter_symbol_data [1/2, 3/10, 1/2, 1/5] (new_matrix 2 1 :: real CC_ReliabilityMatrix)) 0) \<and>
   find_max_in_col (enter_symbol_data [1/2, 3/10, 1/2, 1/5] (new_matrix 2 1 :: real CC_ReliabilityMatrix))
     0 1 = (1/2, 2) \<and>
   find_max_in_col (enter_symbol_data [1/2, 3/10, 1/2, 1/5] (new_matrix 2 1 :: real CC_ReliabilityMatrix))
     0 (1/2) = (3/10, 1) \<and>
   find_max_in_col (enter_symbol_data [1/2, 3/10, 1/2, 1/5] (new_matrix 2 1 :: real CC_ReliabilityMatrix))
     0 (1/5) = (0, 0)"
  using find_max_in_col_below_bound
    [of "enter_symbol_data [1/2, 3/10, 1/2, 1/5] (new_matrix 2 1 :: real CC_ReliabilityMatrix)" 0 1 1]
  by (simp add: wf_matrix_def new_matrix_small enter_symbol_data_def memcpy_floats_def
        find_max_in_col_def find_max_in_col_cell_def cell_def column_def list_all_iff
        upt_0_4)

subsection \<open>deinterleave\<close>

lemma floor_log2_bounds:
  "0 < x \<Longrightarrow> 2 ^ floor_log2 x \<le> x \<and> x < 2 ^ (floor_log2 x + 1)"
proof (induction x rule: floor_log2.induct)
  case (1 x)
  show ?case
  proof (cases "x < 2")
    case True
    then show ?thesis
      using "1.prems" by (simp add: floor_log2.simps [of x])
  next
    case False
    then have "0 < x div 2"
      by simp
    then have IH: "2 ^ floor_log2 (x div 2) \<le> x div 2" "x div 2 < 2 ^ (floor_log2 (x div 2) + 1)"
      using "1.IH" False by simp_all
    have fl: "floor_log2 x = Suc (floor_log2 (x div 2))"
      using False by (simp add: floor_log2.simps [of x])
    have "2 * 2 ^ floor_log2 (x div 2) \<le> x"
      using IH(1) by linarith
    moreover have "x < 2 * 2 ^ (floor_log2 (x div 2) + 1)"
      using IH(2) by linarith
    ultimately show ?thesis
      by (simp add: fl)
  qed
qed

lemma floor_log2_le:
  assumes "0 < x" "x < 2 ^ w"
  shows "floor_log2 x < w"
proof -
  have "(2::nat) ^ floor_log2 x < 2 ^ w"
    using floor_log2_bounds [OF assms(1)] assms(2) by linarith
  then show ?thesis
    by simp
qed

lemma ceil_log2_upper: "x \<le> 2 ^ ceil_log2 x"
proof (cases "x \<le> 1")
  case True
  then show ?thesis by (simp add: ceil_log2_def)
next
  case False
  then have "x - 1 < 2 ^ (floor_log2 (x - 1) + 1)"
    using floor_log2_bounds [of "x - 1"] by simp
  then show ?thesis
    using False by (simp add: ceil_log2_def)
qed

lemma ceil_log2_least: "x \<le> 2 ^ w \<Longrightarrow> ceil_log2 x \<le> w"
proof (cases "x \<le> 1")
  case True
  then show ?thesis by (simp add: ceil_log2_def)
next
  case False
  assume "x \<le> 2 ^ w"
  then have "x - 1 < 2 ^ w" "0 < x - 1"
    using False by simp_all
  then have "floor_log2 (x - 1) < w"
    using floor_log2_le by simp
  then show ?thesis
    using False by (simp add: ceil_log2_def)
qed

lemma ceil_log2_le_index_size: "0 < x \<Longrightarrow> ceil_log2 x \<le> floor_log2 x + 1"
  using floor_log2_bounds [of x] by (intro ceil_log2_least) simp

lemma spec_bit_reverse_Suc:
  "spec_bit_reverse (Suc w) i = (i mod 2) * 2 ^ w + spec_bit_reverse w (i div 2)"
proof -
  have "map (bit i) [0..<Suc w] = bit i 0 # map (bit (i div 2)) [0..<w]"
    by (simp add: upt_conv_Cons map_Suc_upt [symmetric] bit_Suc del: upt_Suc)
  then have "spec_bit_reverse (Suc w) i =
        horner_sum of_bool 2 (rev (map (bit (i div 2)) [0..<w]) @ [bit i 0])"
    by (simp add: spec_bit_reverse_def del: upt_Suc)
  also have "\<dots> = spec_bit_reverse w (i div 2) + 2 ^ w * of_bool (bit i 0)"
    by (simp add: horner_sum_append spec_bit_reverse_def)
  also have "of_bool (bit i 0) = i mod 2"
    by (simp add: bit_0 mod_2_eq_odd)
  finally show ?thesis
    by (simp add: mult.commute)
qed

lemma spec_bit_reverse_0: "spec_bit_reverse 0 i = 0"
  by (simp add: spec_bit_reverse_def)

lemma spec_bit_reverse_zero: "spec_bit_reverse w 0 = 0"
  by (induction w) (simp_all add: spec_bit_reverse_0 spec_bit_reverse_Suc)

lemma spec_bit_reverse_less: "spec_bit_reverse w i < 2 ^ w"
proof (induction w arbitrary: i)
  case 0
  then show ?case by (simp add: spec_bit_reverse_0)
next
  case (Suc w)
  have "i mod 2 * 2 ^ w \<le> 1 * 2 ^ w"
    by (intro mult_le_mono1) simp
  then have "i mod 2 * 2 ^ w \<le> 2 ^ w"
    by (simp only: mult_1)
  then have "i mod 2 * 2 ^ w + spec_bit_reverse w (i div 2) < 2 ^ w + 2 ^ w"
    using Suc [of "i div 2"] by linarith
  then show ?case
    by (simp add: spec_bit_reverse_Suc)
qed

lemma spec_bit_reverse_inj:
  "i < 2 ^ w \<Longrightarrow> j < 2 ^ w \<Longrightarrow> spec_bit_reverse w i = spec_bit_reverse w j \<Longrightarrow> i = j"
proof (induction w arbitrary: i j)
  case 0
  then show ?case by simp
next
  case (Suc w)
  let ?a = "spec_bit_reverse w (i div 2)" and ?b = "spec_bit_reverse w (j div 2)"
  have a: "?a < 2 ^ w" and b: "?b < 2 ^ w"
    by (rule spec_bit_reverse_less)+
  have eq: "(i mod 2) * 2 ^ w + ?a = (j mod 2) * 2 ^ w + ?b"
    using Suc.prems(3) by (simp add: spec_bit_reverse_Suc)
  have m: "i mod 2 = j mod 2"
  proof (rule ccontr)
    assume "i mod 2 \<noteq> j mod 2"
    then consider "i mod 2 = 0" "j mod 2 = 1" | "i mod 2 = 1" "j mod 2 = 0"
      by linarith
    then show False
      using eq a b by cases simp_all
  qed
  then have "?a = ?b"
    using eq by simp
  moreover have "i div 2 < 2 ^ w" "j div 2 < 2 ^ w"
    using Suc.prems(1,2) by simp_all
  ultimately have "i div 2 = j div 2"
    using Suc.IH by blast
  then show ?case
    using m by (metis div_mult_mod_eq)
qed

lemma or_low_bit:
  fixes ni iv :: nat
  assumes "even ni"
  shows "ni OR (iv AND 1) = ni + iv mod 2"
proof -
  have "ni AND (iv mod 2) = 0"
  proof (cases "even iv")
    case True
    then show ?thesis by simp
  next
    case False
    then have "iv mod 2 = 1"
      by (simp add: mod_2_eq_odd)
    then show ?thesis
      using assms by (simp add: and_one_eq)
  qed
  then have "ni + iv mod 2 = ni OR iv mod 2"
    by (rule disjunctive_add_eq_or)
  then show ?thesis
    by (simp add: and_one_eq)
qed

lemma shift_room:
  fixes ni s :: nat
  assumes e: "even ni" and b: "ni * 2 ^ s < 2 ^ 32" and s: "s \<le> 31"
  shows "(ni + 1) * 2 ^ s < 2 ^ 32"
proof -
  define T :: nat where "T = 2 ^ 32"
  obtain m where m: "ni = 2 * m"
    using e by (auto elim: evenE)
  have p: "T = 2 ^ (31 - s) * 2 ^ (s + 1)"
    using s by (simp add: T_def power_add [symmetric])
  have eq: "ni * 2 ^ s = m * 2 ^ (s + 1)"
    by (simp add: m)
  have "m * 2 ^ (s + 1) < 2 ^ (31 - s) * 2 ^ (s + 1)"
    using b unfolding eq T_def [symmetric] p .
  then have "m < 2 ^ (31 - s)"
    by simp
  then have "Suc m \<le> 2 ^ (31 - s)"
    by simp
  then have "Suc m * 2 ^ (s + 1) \<le> 2 ^ (31 - s) * 2 ^ (s + 1)"
    by (rule mult_le_mono1)
  then have le: "Suc m * 2 ^ (s + 1) \<le> T"
    unfolding p .
  have "(ni + 1) * 2 ^ s < Suc m * 2 ^ (s + 1)"
    by (simp add: m algebra_simps)
  then have "(ni + 1) * 2 ^ s < T"
    using le by linarith
  then show ?thesis
    unfolding T_def .
qed

lemma bit_reversal_loop_spec:
  assumes "iv < 2 ^ s" "even ni" "ni * 2 ^ s < 2 ^ 32" "s \<le> 31"
  shows "wrap32 (push_bit (snd (bit_reversal_loop iv ni s))
                   (drop_bit 1 (fst (bit_reversal_loop iv ni s)))) =
         (ni div 2) * 2 ^ s + spec_bit_reverse s iv"
  using assms
proof (induction iv ni s rule: bit_reversal_loop.induct)
  case (1 iv ni s)
  show ?case
  proof (cases "iv = 0")
    case True
    have "(ni div 2) * 2 ^ s \<le> ni * 2 ^ s"
      by (intro mult_le_mono1) simp
    then have "(ni div 2) * 2 ^ s < 2 ^ 32"
      using "1.prems"(3) by linarith
    then show ?thesis
      using True
      by (simp add: bit_reversal_loop.simps [of 0] spec_bit_reverse_zero push_bit_eq_mult
            drop_bit_eq_div wrap32_def)
  next
    case False
    then obtain s' where s: "s = Suc s'"
      using "1.prems"(1) by (cases s) simp_all
    let ?ni = "2 * (ni + iv mod 2)"
    have room: "(ni + 1) * 2 ^ s < 2 ^ 32"
      using shift_room "1.prems" by blast
    have "(ni + iv mod 2) * 2 ^ s \<le> (ni + 1) * 2 ^ s"
      by (intro mult_le_mono1) simp
    moreover have "?ni * 2 ^ s' = (ni + iv mod 2) * 2 ^ s"
      by (simp add: s)
    ultimately have b': "?ni * 2 ^ s' < 2 ^ 32"
      using room by linarith
    have "?ni * 1 \<le> ?ni * 2 ^ s'"
      by (intro mult_le_mono2) simp
    then have small: "?ni < 2 ^ 32"
      using b' by linarith
    have "push_bit 1 (ni OR (iv AND 1)) = ?ni"
      unfolding or_low_bit [OF "1.prems"(2)] by (simp add: push_bit_eq_mult)
    then have ni': "wrap32 (push_bit 1 (ni OR (iv AND 1))) = ?ni"
      using small by (simp only: wrap32_def mod_less)
    have s': "wrap32 (s + (2 ^ 32 - 1)) = s'"
    proof -
      have "s + (2 ^ 32 - 1) = s' + 1 * 2 ^ 32"
        by (simp add: s)
      then have "wrap32 (s + (2 ^ 32 - 1)) = s' mod 2 ^ 32"
        unfolding wrap32_def by (simp only: mod_mult_self1)
      then show ?thesis
        using "1.prems"(4) s by simp
    qed
    have iv': "drop_bit 1 iv = iv div 2"
      by (simp add: drop_bit_eq_div)
    have unfold: "bit_reversal_loop iv ni s = bit_reversal_loop (iv div 2) ?ni s'"
      using False
      by (subst bit_reversal_loop.simps) (simp only: ni' s' iv' if_True not_False_eq_True)
    have "wrap32 (push_bit (snd (bit_reversal_loop (iv div 2) ?ni s'))
                   (drop_bit 1 (fst (bit_reversal_loop (iv div 2) ?ni s')))) =
         (?ni div 2) * 2 ^ s' + spec_bit_reverse s' (iv div 2)"
    proof -
      have "iv div 2 < 2 ^ s'"
        using "1.prems"(1) s by simp
      moreover have "even ?ni"
        by simp
      moreover have "s' \<le> 31"
        using "1.prems"(4) s by simp
      ultimately show ?thesis
        using "1.IH" [OF False] b' unfolding ni' s' iv' by blast
    qed
    moreover have "(?ni div 2) * 2 ^ s' + spec_bit_reverse s' (iv div 2) =
        (ni div 2) * 2 ^ s + spec_bit_reverse s iv"
      using "1.prems"(2) by (auto simp: s spec_bit_reverse_Suc algebra_simps elim!: evenE)
    ultimately show ?thesis
      by (simp add: unfold)
  qed
qed

lemma bit_reversal_spec:
  assumes "i < 2 ^ index_size" "index_size \<le> 31"
  shows "bit_reversal index_size i = spec_bit_reverse index_size i"
  using bit_reversal_loop_spec [of i index_size 0] assms
  by (simp add: bit_reversal_def Let_def)

lemma spec_source_columns_alt: "spec_source_columns ml = reversed_sources (ceil_log2 ml) ml"
  by (simp add: spec_source_columns_def reversed_sources_def)

lemma filter_even_upt: "filter even [0..<2 * n] = map ((*) 2) [0..<n]"
  by (induction n) simp_all

lemma spec_bit_reverse_Suc_small:
  "spec_bit_reverse (Suc w) i < 2 ^ w \<longleftrightarrow> even i"
proof (cases "even i")
  case True
  then show ?thesis
    using spec_bit_reverse_less [of w "i div 2"] by (simp add: spec_bit_reverse_Suc)
next
  case False
  then have "i mod 2 = 1"
    by (simp add: mod_2_eq_odd)
  then show ?thesis
    using False by (simp add: spec_bit_reverse_Suc)
qed

lemma reversed_half:
  "filter (\<lambda>r. r < 2 ^ w) (map (spec_bit_reverse (Suc w)) [0..<2 ^ Suc w]) =
   map (spec_bit_reverse w) [0..<2 ^ w]"
proof -
  have "filter (\<lambda>r. r < 2 ^ w) (map (spec_bit_reverse (Suc w)) [0..<2 ^ Suc w]) =
        map (spec_bit_reverse (Suc w)) (filter even [0..<2 * 2 ^ w])"
    by (simp add: filter_map comp_def spec_bit_reverse_Suc_small)
  also have "\<dots> = map (\<lambda>j. spec_bit_reverse (Suc w) (2 * j)) [0..<2 ^ w]"
    by (simp add: filter_even_upt comp_def)
  also have "\<dots> = map (spec_bit_reverse w) [0..<2 ^ w]"
    by (simp add: spec_bit_reverse_Suc)
  finally show ?thesis .
qed

lemma reversed_sources_Suc:
  assumes "ml \<le> 2 ^ w"
  shows "reversed_sources (Suc w) ml = reversed_sources w ml"
proof -
  have "(\<lambda>r. r < 2 ^ w \<and> r < ml) = (\<lambda>r. r < ml)"
    using assms by auto
  then have "reversed_sources (Suc w) ml =
        filter (\<lambda>r. r < ml) (filter (\<lambda>r. r < 2 ^ w) (map (spec_bit_reverse (Suc w)) [0..<2 ^ Suc w]))"
    by (simp add: reversed_sources_def)
  then show ?thesis
    by (simp only: reversed_half reversed_sources_def)
qed

lemma reversed_sources_wider:
  assumes "ml \<le> 2 ^ w" "w \<le> K"
  shows "reversed_sources K ml = reversed_sources w ml"
  using assms(2)
proof (induction K rule: dec_induct)
  case base
  then show ?case by simp
next
  case (step n)
  have "ml \<le> 2 ^ n"
    using assms(1) step(1) by (meson order_trans one_le_numeral power_increasing)
  then show ?case
    using step by (simp add: reversed_sources_Suc)
qed

lemma filter_less_upt: "m \<le> n \<Longrightarrow> filter (\<lambda>x. x < m) [0..<n] = [0..<m]"
proof (induction n)
  case 0
  then show ?case by simp
next
  case (Suc n)
  show ?case
  proof (cases "m = Suc n")
    case True
    have "filter (\<lambda>x. x < Suc n) [0..<Suc n] = [0..<Suc n]"
      by (rule filter_True) simp
    then show ?thesis
      using True by simp
  next
    case False
    then show ?thesis
      using Suc by simp
  qed
qed

lemma mset_reversed_all: "mset (map (spec_bit_reverse w) [0..<2 ^ w]) = mset [0..<2 ^ w]"
proof -
  have inj: "inj_on (spec_bit_reverse w) (set [0..<2 ^ w])"
    by (rule inj_onI) (simp add: spec_bit_reverse_inj)
  then have d: "distinct (map (spec_bit_reverse w) [0..<2 ^ w])"
    by (simp add: distinct_map)
  have sub: "set (map (spec_bit_reverse w) [0..<2 ^ w]) \<subseteq> {0..<2 ^ w}"
    by (auto simp: spec_bit_reverse_less)
  have "card (set (map (spec_bit_reverse w) [0..<2 ^ w])) = 2 ^ w"
    using d distinct_card by fastforce
  then have "set (map (spec_bit_reverse w) [0..<2 ^ w]) = {0..<2 ^ w}"
    using sub by (intro card_subset_eq) simp_all
  then show ?thesis
    using d by (intro iffD1 [OF set_eq_iff_mset_eq_distinct]) simp_all
qed

lemma mset_reversed_sources:
  assumes "ml \<le> 2 ^ w"
  shows "mset (reversed_sources w ml) = mset [0..<ml]"
proof -
  have "mset (reversed_sources w ml) = filter_mset (\<lambda>r. r < ml) (mset [0..<2 ^ w])"
    by (simp only: reversed_sources_def mset_filter mset_reversed_all)
  also have "\<dots> = mset (filter (\<lambda>r. r < ml) [0..<2 ^ w])"
    by (simp only: mset_filter)
  finally show ?thesis
    using assms by (simp only: filter_less_upt)
qed

lemma deinterleave_loop_place:
  "deinterleave_loop ns ml K W tmp i oi buf =
     place ns tmp (take (ml - oi) (filter (\<lambda>r. r < ml) (map (bit_reversal K) [i..<W]))) oi buf"
proof (induction ns ml K W tmp i oi buf rule: deinterleave_loop.induct)
  case (1 ns ml K W tmp i oi buf)
  show ?case
  proof (cases "i < W \<and> oi < ml")
    case False
    then have e: "take (ml - oi) (filter (\<lambda>r. r < ml) (map (bit_reversal K) [i..<W])) = []"
      by auto
    have "deinterleave_loop ns ml K W tmp i oi buf = buf"
      using False by (subst deinterleave_loop.simps) auto
    then show ?thesis
      by (simp only: e place.simps)
  next
    case True
    then have up: "[i..<W] = i # [i + 1..<W]"
      by (simp add: upt_conv_Cons)
    obtain d where d: "ml - oi = Suc d" "ml - Suc oi = d"
      using True by (cases "ml - oi") auto
    show ?thesis
    proof (cases "bit_reversal K i < ml")
      case r: True
      have "deinterleave_loop ns ml K W tmp i oi buf =
            deinterleave_loop ns ml K W tmp (i + 1) (oi + 1)
              (memcpy_floats buf (oi * ns) (drop (bit_reversal K i * ns) tmp) ns)"
        using True r by (subst deinterleave_loop.simps) (simp add: Let_def)
      then show ?thesis
        using "1.IH"(1) [OF True refl r] r by (simp add: up d del: upt_Suc)
    next
      case r: False
      have "deinterleave_loop ns ml K W tmp i oi buf =
            deinterleave_loop ns ml K W tmp (i + 1) oi buf"
        using True r by (subst deinterleave_loop.simps) (simp add: Let_def)
      then show ?thesis
        using "1.IH"(2) [OF True refl r] r by (simp add: up del: upt_Suc)
    qed
  qed
qed

lemma place_cells:
  assumes "length buf = ns * ml" "length tmp = ns * ml" "\<forall>s\<in>set srcs. s < ml"
    "oi + length srcs \<le> ml"
  shows "length (place ns tmp srcs oi buf) = length buf \<and>
         (\<forall>c<ml. \<forall>r<ns. place ns tmp srcs oi buf ! (c * ns + r) =
            (if oi \<le> c \<and> c < oi + length srcs then tmp ! (srcs ! (c - oi) * ns + r)
             else buf ! (c * ns + r)))"
  using assms
proof (induction srcs arbitrary: oi buf)
  case Nil
  then show ?case by auto
next
  case (Cons s rest)
  let ?src = "drop (s * ns) tmp"
  let ?buf = "memcpy_floats buf (oi * ns) ?src ns"
  have s: "s < ml" and oi: "oi < ml"
    using Cons.prems by simp_all
  have "Suc s * ns \<le> ml * ns"
    using s by (intro mult_le_mono1) simp
  then have src: "ns \<le> length ?src"
    using Cons.prems(2) by (simp add: mult.commute)
  have len: "length ?buf = ns * ml"
    using length_memcpy_column [OF Cons.prems(1) oi src] Cons.prems(1) by simp
  have first: "?buf ! (c * ns + r) = (if c = oi then tmp ! (s * ns + r) else buf ! (c * ns + r))"
    if "c < ml" "r < ns" for c r
  proof -
    have "s * ns + r < length tmp"
      using idx_lt [OF that(2) s] Cons.prems(2) by simp
    then have "?src ! r = tmp ! (s * ns + r)"
      by simp
    then show ?thesis
      using cell_memcpy_column [OF Cons.prems(1) oi src that] by simp
  qed
  have IH: "length (place ns tmp rest (oi + 1) ?buf) = length ?buf \<and>
         (\<forall>c<ml. \<forall>r<ns. place ns tmp rest (oi + 1) ?buf ! (c * ns + r) =
            (if oi + 1 \<le> c \<and> c < oi + 1 + length rest then tmp ! (rest ! (c - (oi + 1)) * ns + r)
             else ?buf ! (c * ns + r)))"
    using Cons.prems by (intro Cons.IH [OF len]) simp_all
  have cells: "place ns tmp (s # rest) oi buf ! (c * ns + r) =
            (if oi \<le> c \<and> c < oi + length (s # rest) then tmp ! ((s # rest) ! (c - oi) * ns + r)
             else buf ! (c * ns + r))"
    if c: "c < ml" and r: "r < ns" for c r
  proof (cases "c = oi")
    case True
    then show ?thesis
      using IH first [OF c r] c r by simp
  next
    case False
    have "(s # rest) ! (c - oi) = rest ! (c - (oi + 1))" if "oi \<le> c"
    proof -
      have "c - oi = Suc (c - (oi + 1))"
        using that False by arith
      then show ?thesis
        by simp
    qed
    then show ?thesis
      using IH first [OF c r] c r False by auto
  qed
  show ?case
    using IH len Cons.prems(1) cells by simp
qed

lemma floor_log2_less_2: "x < 2 \<Longrightarrow> floor_log2 x = 0"
  by (simp add: floor_log2.simps [of x])

lemma floor_log2_3: "floor_log2 3 = 1"
  by (simp add: floor_log2.simps [of 3] floor_log2_less_2)

lemma spec_bit_reverse_2: "spec_bit_reverse (Suc (Suc 0)) i = (i mod 2) * 2 + (i div 2) mod 2"
  by (simp add: spec_bit_reverse_Suc spec_bit_reverse_0)

lemma spec_source_columns_4: "spec_source_columns 4 = [0, 2, 1, 3]"
  by (simp add: spec_source_columns_def ceil_log2_def floor_log2_3 spec_bit_reverse_2 upt_0_4)

lemma deinterleave_with_matrix:
  assumes wf: "wf_matrix M" and cover: "message_length M \<le> 2 ^ K" and K: "K \<le> 31"
  shows "matrix (deinterleave_with K M) =
           place (nb_symbols M) (matrix M) (spec_source_columns (message_length M)) 0 (matrix M)"
    and "length (spec_source_columns (message_length M)) = message_length M"
    and "mset (spec_source_columns (message_length M)) = mset [0..<message_length M]"
proof -
  let ?ml = "message_length M" and ?ns = "nb_symbols M"
  have len: "length (matrix M) = ?ns * ?ml"
    using wf by (simp add: wf_matrix_def)
  have "wrap32 (?ns * ?ml) = ?ns * ?ml"
    using wf by (intro wrap32_small) (simp add: wf_matrix_def)
  then have tmp: "memcpy_floats [] 0 (matrix M) (wrap32 (?ns * ?ml)) = matrix M"
    using len by (intro memcpy_floats_whole) simp
  have "(2::nat) ^ K \<le> 2 ^ 31"
    using K by (intro power_increasing) simp_all
  then have "(2::nat) ^ K < 2 ^ 32"
    by (rule le_less_trans) simp
  then have W: "wrap32 (2 ^ K) = 2 ^ K"
    by (simp only: wrap32_def mod_less)
  have w: "?ml \<le> 2 ^ ceil_log2 ?ml" "ceil_log2 ?ml \<le> K"
    using ceil_log2_upper ceil_log2_least cover by simp_all
  have "map (bit_reversal K) [0..<2 ^ K] = map (spec_bit_reverse K) [0..<2 ^ K]"
    using K by (intro map_cong refl bit_reversal_spec) simp_all
  then have "filter (\<lambda>r. r < ?ml) (map (bit_reversal K) [0..<2 ^ K]) = reversed_sources K ?ml"
    by (simp only: reversed_sources_def)
  also have "\<dots> = spec_source_columns ?ml"
    using reversed_sources_wider [OF w] by (simp only: spec_source_columns_alt)
  finally have srcs: "filter (\<lambda>r. r < ?ml) (map (bit_reversal K) [0..<2 ^ K]) =
      spec_source_columns ?ml" .
  show m: "mset (spec_source_columns ?ml) = mset [0..<?ml]"
    using mset_reversed_sources [OF w(1)] by (simp only: spec_source_columns_alt)
  have "size (mset (spec_source_columns ?ml)) = size (mset [0..<?ml])"
    by (simp only: m)
  then show l: "length (spec_source_columns ?ml) = ?ml"
    by simp
  have "matrix (deinterleave_with K M) =
        deinterleave_loop ?ns ?ml K (2 ^ K) (matrix M) 0 0 (matrix M)"
    by (simp add: deinterleave_with_def Let_def tmp W push_bit_of_1 del: One_nat_def)
  also have "\<dots> = place ?ns (matrix M) (take (?ml - 0) (spec_source_columns ?ml)) 0 (matrix M)"
    by (simp only: deinterleave_loop_place srcs)
  finally show "matrix (deinterleave_with K M) =
           place ?ns (matrix M) (spec_source_columns ?ml) 0 (matrix M)"
    using l by simp
qed

lemma index_size_bounds:
  assumes pos: "1 \<le> ml" and small: "ml < 2 ^ 31"
  shows "ml \<le> 2 ^ (floor_log2 ml + 1)" "floor_log2 ml + 1 \<le> 31"
  using floor_log2_bounds [of ml] floor_log2_le [of ml 31] pos small by simp_all

lemma deinterleave_matrix:
  assumes wf: "wf_matrix M" and pos: "1 \<le> message_length M" and small: "message_length M < 2 ^ 31"
  shows "matrix (deinterleave M) =
           place (nb_symbols M) (matrix M) (spec_source_columns (message_length M)) 0 (matrix M)"
    and "length (spec_source_columns (message_length M)) = message_length M"
    and "mset (spec_source_columns (message_length M)) = mset [0..<message_length M]"
  using deinterleave_with_matrix [OF wf index_size_bounds [OF pos small]]
  by (simp_all only: deinterleave_def)

text \<open>
  The result does not depend on which index width covers \<^verbatim>\<open>_message_length\<close>: with any
  \<open>index_size \<le> 31\<close> such that \<open>message_length \<le> 2^index_size\<close> the loop gives what
  \<^verbatim>\<open>deinterleave\<close> gives. A floating-point \<^verbatim>\<open>log\<close> that returns a quotient just below the
  integer for a power of two (one less for \<open>index_size\<close>) therefore changes nothing.
\<close>

lemma deinterleave_index_size_irrelevant:
  assumes wf: "wf_matrix M" and pos: "1 \<le> message_length M" and small: "message_length M < 2 ^ 31"
    and cover: "message_length M \<le> 2 ^ K" and K: "K \<le> 31"
  shows "deinterleave_with K M = deinterleave M"
proof -
  have "matrix (deinterleave_with K M) = matrix (deinterleave M)"
    using deinterleave_with_matrix(1) [OF wf cover K] deinterleave_matrix(1) [OF wf pos small]
    by simp
  moreover have "deinterleave_with K M = M\<lparr>matrix := matrix (deinterleave_with K M)\<rparr>"
    "deinterleave M = M\<lparr>matrix := matrix (deinterleave M)\<rparr>"
    by (simp_all add: deinterleave_def deinterleave_with_def Let_def)
  ultimately show ?thesis
    by metis
qed

lemma column_deinterleave:
  assumes wf: "wf_matrix M" and pos: "1 \<le> message_length M" and small: "message_length M < 2 ^ 31"
    and j: "j < message_length M"
  shows "column (deinterleave M) j = column M (spec_source_columns (message_length M) ! j)"
proof -
  let ?ml = "message_length M" and ?ns = "nb_symbols M"
  let ?srcs = "spec_source_columns ?ml"
  note d = deinterleave_matrix [OF wf pos small]
  have len: "length (matrix M) = ?ns * ?ml"
    using wf by (simp add: wf_matrix_def)
  have "set ?srcs = set [0..<?ml]"
    using d(3) by (rule mset_eq_setD)
  then have range: "\<forall>s\<in>set ?srcs. s < ?ml"
    by simp
  have "\<forall>c<?ml. \<forall>r<?ns. place ?ns (matrix M) ?srcs 0 (matrix M) ! (c * ?ns + r) =
            (if 0 \<le> c \<and> c < 0 + length ?srcs then matrix M ! (?srcs ! (c - 0) * ?ns + r)
             else matrix M ! (c * ?ns + r))"
    using place_cells [OF len len range, of 0] d(2) by simp
  then have "cell (deinterleave M) r j = cell M r (?srcs ! j)" if "r < ?ns" for r
    using that j d(1,2) by (simp add: cell_def deinterleave_def deinterleave_with_def Let_def)
  then show ?thesis
    by (simp add: column_def deinterleave_def deinterleave_with_def Let_def)
qed

text \<open>
  Claim C6. For a matrix with its allocated buffer and \<open>1 \<le> message_length < 2^31\<close> (so that
  \<^verbatim>\<open>1<<index_size\<close> fits 32 bits), \<^verbatim>\<open>deinterleave\<close> keeps the dimensions and the cursor, and
  destination column \<open>j\<close> receives the column of the snapshot at position
  \<open>spec_source_columns message_length ! j\<close>: the \<open>j\<close>-th of the indices \<open>r(i) < message_length\<close>,
  \<open>i = 0, ..., W-1\<close>, with \<open>r\<close> the bit reversal within \<open>w = ceil(log2(message_length))\<close> bits
  and \<open>W = 2^w\<close>. (The code reverses within \<open>floor(log2(message_length)) + 1\<close> bits, which
  gives the same list.) These sources are a permutation of the columns, so the multiset of
  column contents is preserved; for \<open>message_length = 4\<close> the sources are 0, 2, 1, 3.
\<close>

theorem deinterleave_permutation:
  assumes wf: "wf_matrix M" and pos: "1 \<le> message_length M" and small: "message_length M < 2 ^ 31"
  shows "same_dims (deinterleave M) M \<and>
         message_symbol_count (deinterleave M) = message_symbol_count M \<and>
         length (spec_source_columns (message_length M)) = message_length M \<and>
         mset (spec_source_columns (message_length M)) = mset [0..<message_length M] \<and>
         (j < message_length M \<longrightarrow>
            column (deinterleave M) j = column M (spec_source_columns (message_length M) ! j)) \<and>
         mset (map (column (deinterleave M)) [0..<message_length M]) =
           mset (map (column M) [0..<message_length M]) \<and>
         spec_source_columns 4 = [0, 2, 1, 3]"
proof -
  let ?ml = "message_length M" and ?ns = "nb_symbols M"
  let ?srcs = "spec_source_columns ?ml"
  note d = deinterleave_matrix [OF wf pos small]
  have len: "length (matrix M) = ?ns * ?ml"
    using wf by (simp add: wf_matrix_def)
  have "set ?srcs = set [0..<?ml]"
    using d(3) by (rule mset_eq_setD)
  then have range: "\<forall>s\<in>set ?srcs. s < ?ml"
    by simp
  have "length (matrix (deinterleave M)) = length (matrix M)"
    using place_cells [OF len len range, of 0] d(1,2) by simp
  then have dims: "same_dims (deinterleave M) M"
    by (simp add: same_dims_def deinterleave_def deinterleave_with_def Let_def)
  have cur: "message_symbol_count (deinterleave M) = message_symbol_count M"
    by (simp add: deinterleave_def deinterleave_with_def Let_def)
  have cols: "column (deinterleave M) j = column M (?srcs ! j)" if "j < ?ml" for j
    using column_deinterleave [OF wf pos small that] .
  have "map (column (deinterleave M)) [0..<?ml] = map (\<lambda>j. column M (?srcs ! j)) [0..<?ml]"
    using cols by simp
  also have "\<dots> = map (column M) (map (\<lambda>j. ?srcs ! j) [0..<length ?srcs])"
    by (simp add: d(2))
  also have "\<dots> = map (column M) ?srcs"
    by (simp only: map_nth)
  finally have "mset (map (column (deinterleave M)) [0..<?ml]) = image_mset (column M) (mset ?srcs)"
    by simp
  then have perm: "mset (map (column (deinterleave M)) [0..<?ml]) = mset (map (column M) [0..<?ml])"
    by (simp only: d(3) mset_map)
  show ?thesis
    using dims cur d(2,3) cols [of j] perm spec_source_columns_4 by simp
qed

theorem deinterleave_permutation_witness:
  "wf_matrix \<lparr> nb_symbols_log2 = 0, nb_symbols = 1, message_length = 4,
               message_symbol_count = 4, matrix = [0, 2, 1, 3 :: real] \<rparr> \<and>
   (4::nat) < 2 ^ 31 \<and>
   spec_source_columns 4 = [0, 2, 1, 3] \<and>
   column (deinterleave \<lparr> nb_symbols_log2 = 0, nb_symbols = 1, message_length = 4,
               message_symbol_count = 4, matrix = [0, 2, 1, 3 :: real] \<rparr>) 0 = [0] \<and>
   column (deinterleave \<lparr> nb_symbols_log2 = 0, nb_symbols = 1, message_length = 4,
               message_symbol_count = 4, matrix = [0, 2, 1, 3 :: real] \<rparr>) 1 = [1] \<and>
   column (deinterleave \<lparr> nb_symbols_log2 = 0, nb_symbols = 1, message_length = 4,
               message_symbol_count = 4, matrix = [0, 2, 1, 3 :: real] \<rparr>) 2 = [2] \<and>
   column (deinterleave \<lparr> nb_symbols_log2 = 0, nb_symbols = 1, message_length = 4,
               message_symbol_count = 4, matrix = [0, 2, 1, 3 :: real] \<rparr>) 3 = [3]"
proof -
  let ?M = "\<lparr> nb_symbols_log2 = 0, nb_symbols = 1, message_length = 4,
               message_symbol_count = 4, matrix = [0, 2, 1, 3 :: real] \<rparr>"
  have h: "wf_matrix ?M" "1 \<le> message_length ?M" "message_length ?M < 2 ^ 31"
    by (simp_all add: wf_matrix_def)
  have c: "column ?M 0 = [0]" "column ?M 1 = [2]" "column ?M 2 = [1]" "column ?M 3 = [3]"
    by (simp_all add: column_def cell_def)
  show ?thesis
    using h c deinterleave_permutation [OF h, of 0] deinterleave_permutation [OF h, of 1]
      deinterleave_permutation [OF h, of 2] deinterleave_permutation [OF h, of 3]
    by simp
qed

section \<open>Proofs: the encoder\<close>

subsection \<open>Loading the registers\<close>

lemma word_shift_in_bit_again:
  fixes r :: "'r::len word"
  shows "push_bit 1 (drop_bit 1 (push_bit 1 r + of_bool b)) + of_bool b = push_bit 1 r + of_bool b"
proof -
  let ?y = "push_bit 1 r + of_bool b :: 'r word"
  have "odd ?y \<longleftrightarrow> b"
    by (simp add: push_bit_eq_mult)
  then have "?y mod 2 = of_bool b"
    by (simp add: mod_2_eq_odd)
  moreover have "push_bit 1 (drop_bit 1 ?y) = 2 * (?y div 2)"
    by (simp add: push_bit_eq_mult drop_bit_eq_div)
  ultimately have "push_bit 1 (drop_bit 1 ?y) + of_bool b = 2 * (?y div 2) + ?y mod 2"
    by simp
  also have "\<dots> = ?y"
    by (rule mult_div_mod_eq)
  finally show ?thesis .
qed

lemma ucast_input_bit:
  fixes w :: "'s::len word"
  shows "(ucast (drop_bit j w AND 1) :: 'r::len word) = of_bool (bit w j)"
proof -
  have "drop_bit j w AND 1 = of_bool (bit w j)"
    by (simp add: and_one_eq mod_2_eq_odd bit_iff_odd_drop_bit)
  then show ?thesis
    by simp
qed

lemma load_registers_prefix:
  fixes x :: "'s::len word" and regs :: "'r::len word list"
  shows "fst (fold (load_register no_step) [0..<j] (x, regs)) = drop_bit j x \<and>
         length (snd (fold (load_register no_step) [0..<j] (x, regs))) = length regs \<and>
         (\<forall>i < length regs. snd (fold (load_register no_step) [0..<j] (x, regs)) ! i =
            (if i < j then shifted_in no_step (regs ! i) (bit x i) else regs ! i))"
proof (induction j)
  case 0
  then show ?case by simp
next
  case (Suc j)
  let ?st = "fold (load_register no_step) [0..<j] (x, regs)"
  have st: "fold (load_register no_step) [0..<Suc j] (x, regs) = load_register no_step j ?st"
    by simp
  have f: "fst ?st = drop_bit j x" and l: "length (snd ?st) = length regs"
    and n: "\<And>i. i < length regs \<Longrightarrow>
              snd ?st ! i = (if i < j then shifted_in no_step (regs ! i) (bit x i) else regs ! i)"
    using Suc.IH by auto
  have 1: "fst (load_register no_step j ?st) = drop_bit (Suc j) x"
    by (simp add: load_register_def Let_def f drop_bit_drop_bit)
  have 2: "length (snd (load_register no_step j ?st)) = length regs"
    by (simp add: load_register_def Let_def l)
  have 3: "snd (load_register no_step j ?st) ! i =
            (if i < Suc j then shifted_in no_step (regs ! i) (bit x i) else regs ! i)"
    if "i < length regs" for i
  proof (cases "i = j")
    case True
    then show ?thesis
      using that n [of j] l f
      by (cases no_step) (simp_all add: load_register_def Let_def ucast_input_bit shifted_in_def)
  next
    case False
    then show ?thesis
      using that n [of i] l
      by (auto simp: load_register_def Let_def)
  qed
  show ?case
    unfolding st using 1 2 3 by blast
qed

subsection \<open>Evaluating \<^verbatim>\<open>xorbits\<close> on literals\<close>

lemma xorbits_loop_0: "xorbits_loop 0 nb = nb"
  by (subst xorbits_loop.simps) simp

lemma xorbits_loop_1: "xorbits_loop 1 nb = Suc nb"
  by (subst xorbits_loop.simps) (simp add: xorbits_loop_0)

lemma xorbits_loop_numeral:
  "xorbits_loop (numeral v :: 'r::len word) nb =
     (if (numeral v :: 'r word) \<noteq> 0
      then xorbits_loop (numeral v div 2 :: 'r word) (nb + unat (numeral v mod 2 :: 'r word))
      else nb)"
  by (rule xorbits_loop.simps)

lemmas xorbits_loop_literal = xorbits_loop_0 xorbits_loop_1 xorbits_loop_numeral


subsection \<open>Replay and state fork\<close>

lemma encode_fields:
  "enc_k (snd (encode x no_step e)) = enc_k e"
  "enc_n (snd (encode x no_step e)) = enc_n e"
  "genpoly_representations (snd (encode x no_step e)) = genpoly_representations e"
  "length (registers (snd (encode x no_step e))) = length (registers e)"
  using load_registers_prefix [of no_step "enc_k e" x "registers e"]
  by (simp_all add: encode_def Let_def)

lemma encode_only_registers:
  "snd (encode x no_step e) = e\<lparr>registers := registers (snd (encode x no_step e))\<rparr>"
  by (simp add: encode_def Let_def)

lemma encode_seq_only_registers:
  "snd (encode_seq xs no_step e) = e\<lparr>registers := registers (snd (encode_seq xs no_step e))\<rparr>"
proof (induction xs arbitrary: e)
  case Nil
  then show ?case by simp
next
  case (Cons x xs)
  have "snd (encode_seq (x # xs) no_step e) = snd (encode_seq xs no_step (snd (encode x no_step e)))"
    by (simp add: Let_def)
  also have "\<dots> = (snd (encode x no_step e))
      \<lparr>registers := registers (snd (encode_seq xs no_step (snd (encode x no_step e))))\<rparr>"
    by (rule Cons.IH)
  also have "\<dots> = e\<lparr>registers := registers (snd (encode_seq xs no_step (snd (encode x no_step e))))\<rparr>"
    by (subst encode_only_registers) simp
  finally show ?case
    by (simp add: Let_def)
qed

lemma symbol_bit_of_registers:
  "symbol_bit_of (e\<lparr>registers := r\<rparr>) regs ni = symbol_bit_of e regs ni"
  by (simp add: symbol_bit_of_def)

lemma replay_registers:
  fixes x :: "'s::len word" and regs :: "'r::len word list"
  shows "snd (fold (load_register True) [0..<k]
                (x, snd (fold (load_register False) [0..<k] (x, regs)))) =
         snd (fold (load_register False) [0..<k] (x, regs))"
proof (rule nth_equalityI)
  let ?r1 = "snd (fold (load_register False) [0..<k] (x, regs))"
  let ?r2 = "snd (fold (load_register True) [0..<k] (x, ?r1))"
  note p1 = load_registers_prefix [of False k x regs]
  note p2 = load_registers_prefix [of True k x ?r1]
  show "length ?r2 = length ?r1"
    using p2 by simp
  fix i
  assume "i < length ?r2"
  then have i: "i < length ?r1" "i < length regs"
    using p1 p2 by simp_all
  show "?r2 ! i = ?r1 ! i"
  proof (cases "i < k")
    case True
    have "?r2 ! i = shifted_in True (?r1 ! i) (bit x i)"
      using p2 i True by simp
    also have "?r1 ! i = shifted_in False (regs ! i) (bit x i)"
      using p1 i True by simp
    also have "shifted_in True (shifted_in False (regs ! i) (bit x i)) (bit x i) =
               shifted_in False (regs ! i) (bit x i)"
      by (simp only: shifted_in_def if_True if_False word_shift_in_bit_again)
    finally show ?thesis
      using p1 i True by simp
  next
    case False
    then show ?thesis
      using p2 i by simp
  qed
qed

text \<open>
  Claim C8. For every encoder state and every input symbol \<open>x\<close>, \<^verbatim>\<open>encode(x, no_step=true)\<close>
  right after \<^verbatim>\<open>encode(x, no_step=false)\<close> returns the same output symbol and leaves the
  encoder exactly as the first call left it. The registers are machine words, so the
  statement covers a first call whose left shift dropped the most significant bit.
\<close>

theorem no_step_replay:
  fixes x :: "'s::len word" and e :: "'r::len CC_Encoding_FA"
  shows "fst (encode x True (snd (encode x False e))) = fst (encode x False e) \<and>
         snd (encode x True (snd (encode x False e))) = snd (encode x False e)"
  using replay_registers [of "enc_k e" x "registers e"]
  by (simp add: encode_def Let_def symbol_bit_of_registers)

theorem no_step_replay_witness:
  "fst (encode (1 :: 8 word) False
      \<lparr> enc_k = 1, enc_n = 2, enc_m = 3, constraints = [3],
        genpoly_representations = [[7, 5 :: 8 word]], registers = [129] \<rparr>) = 2 \<and>
   snd (encode (1 :: 8 word) False
      \<lparr> enc_k = 1, enc_n = 2, enc_m = 3, constraints = [3],
        genpoly_representations = [[7, 5 :: 8 word]], registers = [129] \<rparr>) =
      \<lparr> enc_k = 1, enc_n = 2, enc_m = 3, constraints = [3],
        genpoly_representations = [[7, 5 :: 8 word]], registers = [3] \<rparr> \<and>
   fst (encode (1 :: 8 word) True
      \<lparr> enc_k = 1, enc_n = 2, enc_m = 3, constraints = [3],
        genpoly_representations = [[7, 5 :: 8 word]], registers = [3] \<rparr>) = 2 \<and>
   snd (encode (1 :: 8 word) True
      \<lparr> enc_k = 1, enc_n = 2, enc_m = 3, constraints = [3],
        genpoly_representations = [[7, 5 :: 8 word]], registers = [3] \<rparr>) =
      \<lparr> enc_k = 1, enc_n = 2, enc_m = 3, constraints = [3],
        genpoly_representations = [[7, 5 :: 8 word]], registers = [3] \<rparr>"
  using no_step_replay [where x = "1 :: 8 word" and e = "\<lparr> enc_k = 1, enc_n = 2, enc_m = 3, constraints = [3],
        genpoly_representations = [[7, 5 :: 8 word]], registers = [129] \<rparr>"]
  by (simp add: encode_def Let_def load_register_def symbol_bit_of_def xorbits_def
        xorbits_loop_literal upt_0_2)

text \<open>
  Claim C7. Capture the registers with \<^verbatim>\<open>get_registers\<close>, encode the sequence \<open>s1\<close>,
  restore the capture with \<^verbatim>\<open>set_registers\<close>: the encoder is the one captured, and
  encoding \<open>s1\<close> again gives the same output symbols and the same final encoder as the
  first run. \<^verbatim>\<open>set_registers\<close> followed by \<^verbatim>\<open>get_registers\<close> returns the registers
  set, and setting the registers just read changes nothing.
\<close>

theorem state_fork:
  fixes s1 :: "'s::len word list" and e :: "'r::len CC_Encoding_FA"
  shows "(let snapshot = get_registers e;
              r1 = encode_seq s1 no_step e;
              e2 = set_registers snapshot (snd r1);
              r2 = encode_seq s1 no_step e2
          in e2 = e \<and> fst r2 = fst r1 \<and> snd r2 = snd r1) \<and>
         get_registers (set_registers regs e) = regs \<and>
         set_registers (get_registers e) e = e"
proof -
  have "set_registers (get_registers e) (snd (encode_seq s1 no_step e)) = e"
    by (subst encode_seq_only_registers) (simp add: set_registers_def get_registers_def)
  then show ?thesis
    by (simp add: Let_def set_registers_def get_registers_def)
qed

theorem state_fork_witness:
  "fst (encode_seq [1, 0 :: 8 word] False
      \<lparr> enc_k = 1, enc_n = 2, enc_m = 3, constraints = [3],
        genpoly_representations = [[7, 5 :: 8 word]], registers = [129] \<rparr>) = [2, 2] \<and>
   get_registers (snd (encode_seq [1, 0 :: 8 word] False
      \<lparr> enc_k = 1, enc_n = 2, enc_m = 3, constraints = [3],
        genpoly_representations = [[7, 5 :: 8 word]], registers = [129] \<rparr>)) = [6] \<and>
   fst (encode_seq [1, 0 :: 8 word] False
      (set_registers [129] (snd (encode_seq [1, 0 :: 8 word] False
      \<lparr> enc_k = 1, enc_n = 2, enc_m = 3, constraints = [3],
        genpoly_representations = [[7, 5 :: 8 word]], registers = [129] \<rparr>)))) = [2, 2]"
  using state_fork [where ?s1.0 = "[1, 0 :: 8 word]" and no_step = False and regs = "[]"
      and e = "\<lparr> enc_k = 1, enc_n = 2, enc_m = 3, constraints = [3],
        genpoly_representations = [[7, 5 :: 8 word]], registers = [129] \<rparr>"]
  by (simp add: encode_def Let_def load_register_def symbol_bit_of_def xorbits_def
        xorbits_loop_literal upt_0_2 get_registers_def set_registers_def)

subsection \<open>Parity and output bits\<close>

lemma popcount_rec:
  fixes w :: "'r::len word"
  shows "popcount w = of_bool (odd w) + popcount (w div 2)"
proof -
  obtain L where L: "LENGTH('r) = Suc L"
    by (cases "LENGTH('r)") simp_all
  have top: "\<not> bit (w div 2) L"
    using bit_Suc [of w L, symmetric] bit_imp_le_length [of w "Suc L"] L by auto
  have "[0..<Suc L] = 0 # map Suc [0..<L]"
    by (simp add: upt_conv_Cons map_Suc_upt del: upt_Suc)
  then have "popcount w = of_bool (bit w 0) + length (filter (bit w \<circ> Suc) [0..<L])"
    by (simp add: popcount_def L filter_map del: upt_Suc)
  also have "bit w \<circ> Suc = bit (w div 2)"
    by (auto simp: bit_Suc)
  also have "length (filter (bit (w div 2)) [0..<L]) = popcount (w div 2)"
    using top by (simp add: popcount_def L)
  finally show ?thesis
    by (simp add: bit_0)
qed

lemma popcount_0: "popcount 0 = 0"
  by (simp add: popcount_def)

lemma xorbits_loop_popcount: "xorbits_loop w nb = nb + popcount w"
proof (induction w nb rule: xorbits_loop.induct)
  case (1 w nb)
  show ?case
  proof (cases "w = 0")
    case True
    then show ?thesis
      by (simp add: xorbits_loop_0 popcount_0)
  next
    case False
    have "xorbits_loop w nb = xorbits_loop (w div 2) (nb + unat (w mod 2))"
      using False by (subst xorbits_loop.simps) simp
    also have "\<dots> = nb + unat (w mod 2) + popcount (w div 2)"
      using False by (rule "1.IH")
    also have "unat (w mod 2) = of_bool (odd w)"
      by (simp add: mod_2_eq_odd)
    finally show ?thesis
      by (simp add: popcount_rec [of w])
  qed
qed

lemma xorbits_parity: "xorbits w \<longleftrightarrow> popcount w mod 2 = 1"
  by (simp add: xorbits_def xorbits_loop_popcount)

lemma foldr_xor_acc:
  "foldr (\<lambda>i b. q i \<noteq> b) xs c = (foldr (\<lambda>i b. q i \<noteq> b) xs False \<noteq> c)"
  by (induction xs) auto

lemma fold_xor_bits:
  "fold (\<lambda>ki (symbol_bit :: 's::len word). symbol_bit XOR (if q ki then 1 else 0)) [0..<k] 0 =
   of_bool (foldr (\<lambda>i b. q i \<noteq> b) [0..<k] False)"
proof (induction k)
  case 0
  then show ?case by simp
next
  case (Suc k)
  have "foldr (\<lambda>i b. q i \<noteq> b) [0..<Suc k] False = (foldr (\<lambda>i b. q i \<noteq> b) [0..<k] False \<noteq> q k)"
    using foldr_xor_acc [of q "[0..<k]" "q k"] by simp
  then show ?case
    using Suc by (cases "q k"; cases "foldr (\<lambda>i b. q i \<noteq> b) [0..<k] False") simp_all
qed

lemma symbol_bit_of_spec:
  "length regs = enc_k e \<Longrightarrow>
   (symbol_bit_of e regs ni :: 's::len word) =
     of_bool (spec_output_bit (genpoly_representations e) regs ni)"
  unfolding symbol_bit_of_def spec_output_bit_def
  using fold_xor_bits [of "\<lambda>ki. xorbits (regs ! ki AND genpoly_representations e ! ki ! ni)" "enc_k e"]
  by (simp add: xorbits_parity)

lemma fold_output_bits:
  fixes p :: "nat \<Rightarrow> bool"
  assumes "n \<le> LENGTH('s::len)"
  shows "bit (fold (\<lambda>ni (out_symbol :: 's word). out_symbol + push_bit ni (of_bool (p ni))) [0..<n] 0) j
         \<longleftrightarrow> j < n \<and> p j"
  using assms
proof (induction n arbitrary: j)
  case 0
  then show ?case by simp
next
  case (Suc n)
  let ?acc = "fold (\<lambda>ni (out_symbol :: 's word). out_symbol + push_bit ni (of_bool (p ni))) [0..<n] 0"
  have IH: "\<And>j. bit ?acc j \<longleftrightarrow> j < n \<and> p j"
    using Suc by simp
  have disj: "\<not> bit ?acc i \<or> \<not> bit (push_bit n (of_bool (p n)) :: 's word) i" for i
    by (auto simp: IH bit_push_bit_iff bit_of_bool_iff)
  have "?acc + push_bit n (of_bool (p n)) = ?acc OR push_bit n (of_bool (p n))"
    using disj by (rule disjunctive_add)
  then have "bit (?acc + push_bit n (of_bool (p n))) j \<longleftrightarrow> (j < n \<and> p j) \<or> (j = n \<and> p n)"
    using Suc.prems by (auto simp: bit_or_iff IH bit_push_bit_iff bit_of_bool_iff)
  then show ?case
    by (auto simp: less_Suc_eq)
qed

subsection \<open>The constructor\<close>

lemma ctor_fold:
  "fold (ctor_step W cs gp) [0..<j] (Inr (mn0, m0)) =
     (if \<exists>i<j. cs ! i > W
      then Inl (CCSoft_Exception ''One constraint size is too large for the size of the registers'')
      else Inr (Min (insert mn0 ((\<lambda>i. length (gp ! i)) ` {..<j})),
                Max (insert m0 ((\<lambda>i. cs ! i) ` {..<j}))))"
proof (induction j)
  case 0
  then show ?case by simp
next
  case (Suc j)
  let ?A = "insert mn0 ((\<lambda>i. length (gp ! i)) ` {..<j})"
  let ?B = "insert m0 ((\<lambda>i. cs ! i) ` {..<j})"
  have "insert mn0 ((\<lambda>i. length (gp ! i)) ` {..<Suc j}) = insert (length (gp ! j)) ?A"
    by (auto simp: lessThan_Suc)
  then have A: "Min (insert mn0 ((\<lambda>i. length (gp ! i)) ` {..<Suc j})) = min (length (gp ! j)) (Min ?A)"
    using Min_insert [of ?A "length (gp ! j)"] by simp
  have "insert m0 ((\<lambda>i. cs ! i) ` {..<Suc j}) = insert (cs ! j) ?B"
    by (auto simp: lessThan_Suc)
  then have B: "Max (insert m0 ((\<lambda>i. cs ! i) ` {..<Suc j})) = max (cs ! j) (Max ?B)"
    using Max_insert [of ?B "cs ! j"] by simp
  show ?case
  proof (cases "\<exists>i<j. cs ! i > W")
    case True
    then have "\<exists>i<Suc j. cs ! i > W"
      using less_Suc_eq by blast
    then show ?thesis
      using True Suc by (simp add: ctor_step_def)
  next
    case False
    then have ex: "(\<exists>i<Suc j. cs ! i > W) \<longleftrightarrow> cs ! j > W"
      using less_Suc_eq by auto
    define a where "a = Min ?A"
    define b where "b = Max ?B"
    have "fold (ctor_step W cs gp) [0..<j] (Inr (mn0, m0)) = Inr (a, b)"
      unfolding a_def b_def using False Suc.IH by (simp only: if_False)
    then have "fold (ctor_step W cs gp) [0..<Suc j] (Inr (mn0, m0)) = ctor_step W cs gp j (Inr (a, b))"
      by simp
    also have "\<dots> = (if cs ! j > W
        then Inl (CCSoft_Exception ''One constraint size is too large for the size of the registers'')
        else Inr (min (length (gp ! j)) a, max (cs ! j) b))"
      by (auto simp: ctor_step_def min_def max_def)
    finally show ?thesis
      unfolding ex A B a_def b_def .
  qed
qed

lemma spec_n_as_Min:
  assumes "gp = g0 # gs"
  shows "Min (insert (length g0) ((\<lambda>i. length (gp ! i)) ` {..<length gp})) = spec_n gp"
proof -
  have "(\<lambda>i. length (gp ! i)) ` {..<length gp} = set (map length gp)"
    by (force simp: in_set_conv_nth image_iff)
  moreover have "length g0 \<in> set (map length gp)"
    using assms by simp
  ultimately show ?thesis
    by (simp add: spec_n_def insert_absorb)
qed

lemma list_ex_nth: "list_ex P xs \<longleftrightarrow> (\<exists>i<length xs. P (xs ! i))"
  by (force simp: list_ex_iff in_set_conv_nth)

lemma encoder_ok_encode:
  "encoder_ok TYPE('s::len) e \<Longrightarrow> encoder_ok TYPE('s) (snd (encode (x :: 's word) no_step e))"
  by (simp add: encoder_ok_def encode_fields)

lemma encoder_ok_clear: "encoder_ok TYPE('s::len) e \<Longrightarrow> encoder_ok TYPE('s) (clear e)"
  by (simp add: encoder_ok_def clear_def)

lemma encoder_ok_set_registers:
  "encoder_ok TYPE('s::len) e \<Longrightarrow> length regs = enc_k e \<Longrightarrow> encoder_ok TYPE('s) (set_registers regs e)"
  by (simp add: encoder_ok_def set_registers_def)

lemma new_encoder_cases:
  fixes gp :: "'r::len word list list"
  assumes k: "0 < N_k"
  shows "if spec_config_error LENGTH('r) LENGTH('s::len) N_k cs gp
         then \<exists>msg. new_encoder TYPE('s) N_k cs gp = Inl (CCSoft_Exception msg)
         else new_encoder TYPE('s) N_k cs gp =
                Inr \<lparr> enc_k = N_k, enc_n = spec_n gp, enc_m = Max (insert 0 (set cs)),
                      constraints = cs, genpoly_representations = gp,
                      registers = replicate N_k 0 \<rparr>"
proof (cases "length cs = N_k \<and> length gp = N_k")
  case False
  then show ?thesis
    by (auto simp: spec_config_error_def new_encoder_def)
next
  case True
  then obtain g0 gs where gp: "gp = g0 # gs"
    using k by (cases gp) auto
  have cs_set: "(\<lambda>i. cs ! i) ` {..<length cs} = set cs"
    by (force simp: in_set_conv_nth image_iff)
  note f = ctor_fold [of "LENGTH('r)" cs gp "length cs" "length g0" 0]
  have mn: "Min (insert (length g0) ((\<lambda>i. length (gp ! i)) ` {..<length cs})) = spec_n gp"
    using spec_n_as_Min [OF gp] True by simp
  show ?thesis
  proof (cases "list_ex (\<lambda>c. c > LENGTH('r)) cs")
    case ex: True
    then have "\<exists>i<length cs. cs ! i > LENGTH('r)"
      by (simp add: list_ex_nth)
    then show ?thesis
      using True ex f by (auto simp: spec_config_error_def new_encoder_def gp)
  next
    case nex: False
    then have "\<not> (\<exists>i<length cs. cs ! i > LENGTH('r))"
      by (simp add: list_ex_nth)
    then have fold_eq: "fold (ctor_step LENGTH('r) cs gp) [0..<length cs] (Inr (length g0, 0)) =
        Inr (spec_n gp, Max (insert 0 (set cs)))"
      using f mn cs_set by simp
    have sub: "N_k > LENGTH('s) \<Longrightarrow> spec_n gp \<le> N_k \<or> spec_n gp > LENGTH('s)"
      by linarith
    show ?thesis
      using True nex sub fold_eq [unfolded gp]
      by (auto simp: spec_config_error_def new_encoder_def gp clear_def)
  qed
qed

lemma popcount_1: "popcount 1 = 1"
  using popcount_rec [of 1] by (simp add: popcount_0)

lemma popcount_numeral:
  "popcount (numeral v :: 'r::len word) =
     of_bool (odd (numeral v :: 'r word)) + popcount (numeral v div 2 :: 'r word)"
  by (rule popcount_rec)

lemmas popcount_literal = popcount_0 popcount_1 popcount_numeral

text \<open>
  Claim C3. For \<open>N_k \<ge> 1\<close>, the constructor throws \<^verbatim>\<open>CCSoft_Exception\<close> exactly when the
  number of constraint lengths differs from \<open>N_k\<close>, or a constraint length exceeds the
  register width, or the number of tap vectors differs from \<open>N_k\<close>, or the least tap vector
  length \<open>n\<close> is at most \<open>N_k\<close>, or \<open>n\<close> exceeds the symbol width. In every other case it
  returns an encoder with \<open>k = N_k\<close>, \<open>n\<close> that minimum, cleared registers and the sizes
  that keep every read of \<^verbatim>\<open>encode\<close> in range. \<^verbatim>\<open>encode\<close>, \<^verbatim>\<open>clear\<close> and \<^verbatim>\<open>set_registers\<close>
  are total, throw nothing and keep those sizes.
\<close>

theorem constructor_configuration_error:
  fixes gp :: "'r::len word list list" and e :: "'r CC_Encoding_FA" and x :: "'s::len word"
  assumes k: "0 < N_k"
  shows "((\<exists>msg. new_encoder TYPE('s) N_k cs gp = Inl (CCSoft_Exception msg)) \<longleftrightarrow>
            spec_config_error LENGTH('r) LENGTH('s) N_k cs gp) \<and>
         (\<not> spec_config_error LENGTH('r) LENGTH('s) N_k cs gp \<longrightarrow>
            (\<exists>c. new_encoder TYPE('s) N_k cs gp = Inr c \<and> enc_k c = N_k \<and> enc_n c = spec_n gp \<and>
                 registers c = replicate N_k 0 \<and> encoder_ok TYPE('s) c)) \<and>
         (encoder_ok TYPE('s) e \<longrightarrow>
            encoder_ok TYPE('s) (snd (encode x no_step e)) \<and>
            encoder_ok TYPE('s) (clear e) \<and>
            (length regs = enc_k e \<longrightarrow> encoder_ok TYPE('s) (set_registers regs e)))"
proof -
  note c = new_encoder_cases [OF k, of cs gp, where 's = 's]
  have raises: "(\<exists>msg. new_encoder TYPE('s) N_k cs gp = Inl (CCSoft_Exception msg)) \<longleftrightarrow>
            spec_config_error LENGTH('r) LENGTH('s) N_k cs gp"
    using c by (cases "spec_config_error LENGTH('r) LENGTH('s) N_k cs gp") auto
  have succeeds: "\<exists>c. new_encoder TYPE('s) N_k cs gp = Inr c \<and> enc_k c = N_k \<and> enc_n c = spec_n gp \<and>
                 registers c = replicate N_k 0 \<and> encoder_ok TYPE('s) c"
    if ok: "\<not> spec_config_error LENGTH('r) LENGTH('s) N_k cs gp"
  proof -
    have "\<And>g. g \<in> set gp \<Longrightarrow> spec_n gp \<le> length g"
      by (simp add: spec_n_def)
    then have "list_all (\<lambda>g. spec_n gp \<le> length g) gp"
      by (simp add: list_all_iff)
    then show ?thesis
      using c ok by (simp add: encoder_ok_def spec_config_error_def)
  qed
  show ?thesis
    using raises succeeds encoder_ok_encode [of e x no_step] encoder_ok_clear [of e, where 's = 's]
      encoder_ok_set_registers [of e regs, where 's = 's]
    by blast
qed

theorem constructor_configuration_error_witness:
  "(0::nat) < 1 \<and>
   \<not> spec_config_error 8 8 1 [3] [[7, 5 :: 8 word]] \<and>
   new_encoder TYPE(8) 1 [3] [[7, 5 :: 8 word]] =
     Inr \<lparr> enc_k = 1, enc_n = 2, enc_m = 3, constraints = [3],
           genpoly_representations = [[7, 5]], registers = [0] \<rparr> \<and>
   spec_config_error 8 8 1 [9] [[7, 5 :: 8 word]] \<and>
   new_encoder TYPE(8) 1 [9] [[7, 5 :: 8 word]] =
     Inl (CCSoft_Exception ''One constraint size is too large for the size of the registers'')"
  using constructor_configuration_error [of 1 "[3]" "[[7, 5 :: 8 word]]", where 's = 8]
  by (simp add: spec_config_error_def spec_n_def new_encoder_def ctor_step_def clear_def)

text \<open>
  Claim C2. For every encoder state and input symbol, \<^verbatim>\<open>encode\<close> (with \<open>no_step\<close> false)
  replaces register \<open>i\<close>, for each \<open>i < k\<close>, by itself shifted left by one with bit \<open>i\<close> of
  the input inserted at the least significant position, and bit \<open>j\<close> of the output symbol
  is set exactly when \<open>j < n\<close> and the XOR over the \<open>k\<close> registers of the parity of the
  population count of (register \<open>i\<close> AND tap vector \<open>[i][j]\<close>) is 1. For \<open>k = 1\<close>, \<open>n = 2\<close>,
  constraint length 3 and tap vectors 7 and 5, the bits 1, 0, 1, 1 from the cleared state
  give the symbols 3, 1, 0, 2.
\<close>

theorem encode_output:
  fixes x :: "'s::len word" and e :: "'r::len CC_Encoding_FA"
  assumes ok: "encoder_ok TYPE('s) e"
  shows "length (registers (snd (encode x False e))) = enc_k e \<and>
         (i < enc_k e \<longrightarrow>
            registers (snd (encode x False e)) ! i =
              push_bit 1 (registers e ! i) + of_bool (bit x i)) \<and>
         (bit (fst (encode x False e)) j \<longleftrightarrow>
            j < enc_n e \<and>
            spec_output_bit (genpoly_representations e) (registers (snd (encode x False e))) j) \<and>
         (case new_encoder TYPE(8) 1 [3] [[7, 5 :: 8 word]] of
            Inl err \<Rightarrow> False
          | Inr g \<Rightarrow> fst (encode_seq [1, 0, 1, 1 :: 8 word] False (clear g)) = [3, 1, 0, 2])"
proof -
  let ?regs = "snd (fold (load_register False) [0..<enc_k e] (x, registers e))"
  have len: "length (registers e) = enc_k e" and n: "enc_n e \<le> LENGTH('s)"
    using ok by (simp_all add: encoder_ok_def)
  note p = load_registers_prefix [of False "enc_k e" x "registers e"]
  have regs: "registers (snd (encode x False e)) = ?regs"
    by (simp add: encode_def Let_def)
  have l: "length ?regs = enc_k e"
    using p len by simp
  have r: "?regs ! i = push_bit 1 (registers e ! i) + of_bool (bit x i)" if "i < enc_k e"
    using p len that by (simp add: shifted_in_def)
  have "fst (encode x False e) =
        fold (\<lambda>ni out_symbol. out_symbol +
                push_bit ni (of_bool (spec_output_bit (genpoly_representations e) ?regs ni)))
             [0..<enc_n e] 0"
    by (simp add: encode_def Let_def symbol_bit_of_spec [OF l])
  then have b: "bit (fst (encode x False e)) j \<longleftrightarrow>
                j < enc_n e \<and> spec_output_bit (genpoly_representations e) ?regs j"
    using fold_output_bits [OF n, of "spec_output_bit (genpoly_representations e) ?regs" j]
    by simp
  have golden: "case new_encoder TYPE(8) 1 [3] [[7, 5 :: 8 word]] of
            Inl err \<Rightarrow> False
          | Inr g \<Rightarrow> fst (encode_seq [1, 0, 1, 1 :: 8 word] False (clear g)) = [3, 1, 0, 2]"
    by (simp add: new_encoder_def ctor_step_def clear_def encode_def Let_def load_register_def
          symbol_bit_of_def xorbits_def xorbits_loop_literal upt_0_2)
  show ?thesis
    using l r b golden by (simp add: regs)
qed

theorem encode_output_witness:
  "encoder_ok TYPE(8) \<lparr> enc_k = 1, enc_n = 2, enc_m = 3, constraints = [3],
                         genpoly_representations = [[7, 5 :: 8 word]], registers = [129] \<rparr> \<and>
   registers (snd (encode (1 :: 8 word) False
      \<lparr> enc_k = 1, enc_n = 2, enc_m = 3, constraints = [3],
        genpoly_representations = [[7, 5 :: 8 word]], registers = [129] \<rparr>)) = [3] \<and>
   fst (encode (1 :: 8 word) False
      \<lparr> enc_k = 1, enc_n = 2, enc_m = 3, constraints = [3],
        genpoly_representations = [[7, 5 :: 8 word]], registers = [129] \<rparr>) = 2 \<and>
   spec_output_bit [[7, 5 :: 8 word]] [3] 1 \<and>
   \<not> spec_output_bit [[7, 5 :: 8 word]] [3] 0"
  using encode_output [where e = "\<lparr> enc_k = 1, enc_n = 2, enc_m = 3, constraints = [3],
        genpoly_representations = [[7, 5 :: 8 word]], registers = [129] \<rparr>"
      and x = "1 :: 8 word" and i = 0 and j = 1]
  by (simp add: encoder_ok_def encode_def Let_def load_register_def symbol_bit_of_def xorbits_def
        xorbits_loop_literal upt_0_2 spec_output_bit_def popcount_literal)

end
